theory Spec2Isabelle
  imports Main
begin

section \<open>Listener orchestration (networking.go)\<close>

text \<open>
  The routines of \<^verbatim>\<open>networking.go\<close> return nothing: they open sockets, take a file
  lock, write log records and start goroutines. The embedding makes these effects
  explicit. Every routine yields the sequence of effects it performs (a list of
  \<open>event\<close>s, in program order) together with the way it ends (\<open>Returns\<close> or
  \<open>Panics\<close>). A goroutine started with \<^verbatim>\<open>go func() { ... }()\<close> is the event \<open>Go t\<close>,
  where the \<open>task\<close> \<open>t\<close> names the closure with the variables it captures; the body of
  each closure is a function of its own. The results of calls that leave the file
  (the operating system, \<^verbatim>\<open>NewSocket\<close>, the blocking \<^verbatim>\<open>AcceptUnix\<close>) are inputs of
  the model.
\<close>

subsection \<open>Data\<close>

text \<open>\<^verbatim>\<open>net.Addr\<close> is an interface; the type switches of the entry points tell
  \<^verbatim>\<open>*net.UDPAddr\<close>, \<^verbatim>\<open>*net.TCPAddr\<close> and \<^verbatim>\<open>*net.UnixAddr\<close> from every other
  implementation (\<^verbatim>\<open>*net.IPAddr\<close>, or a type of the caller's own).\<close>

datatype net_Addr =
    UDPAddr string nat
  | TCPAddr string nat
  | UnixAddr string string
  | IPAddr string
  | OtherAddr string string

text \<open>\<^verbatim>\<open>Network()\<close>: for a Unix address the \<^verbatim>\<open>Net\<close> field (\<^verbatim>\<open>unix\<close>, \<^verbatim>\<open>unixgram\<close> or
  \<^verbatim>\<open>unixpacket\<close>).\<close>

fun Network :: "net_Addr \<Rightarrow> string" where
  "Network (UDPAddr ip port) = ''udp''"
| "Network (TCPAddr ip port) = ''tcp''"
| "Network (UnixAddr name net) = net"
| "Network (IPAddr ip) = ''ip''"
| "Network (OtherAddr net str) = net"

text \<open>\<^verbatim>\<open>tls.ClientAuthType\<close> and the one field of \<^verbatim>\<open>tls.Config\<close> the file reads.\<close>

datatype ClientAuthType =
    NoClientCert
  | RequestClientCert
  | RequireAnyClientCert
  | VerifyClientCertIfGiven
  | RequireAndVerifyClientCert

record tls_Config =
  ClientAuth :: ClientAuthType

text \<open>The fields of \<^verbatim>\<open>Server\<close> that the file reads. \<^verbatim>\<open>numReaders\<close> and
  \<^verbatim>\<open>RcvbufBytes\<close> are Go \<^verbatim>\<open>int\<close>s; a nil \<^verbatim>\<open>tlsConfig\<close> is \<open>None\<close>.\<close>

record Server =
  numReaders :: int
  RcvbufBytes :: int
  tlsConfig :: "tls_Config option"

type_synonym err = string
type_synonym sock = nat
type_synonym conn = nat

text \<open>A listener is the handle the operating system returned, possibly wrapped by
  \<^verbatim>\<open>tls.NewListener\<close>.\<close>

datatype listener =
    RawListener nat
  | TLSListener listener tls_Config

text \<open>The values the file panics with, one per \<^verbatim>\<open>panic(fmt.Sprintf(...))\<close>, holding
  the arguments of the format string, and the run-time panic of an index out of range.\<close>

datatype panic_value =
    StatsdUnsupported net_Addr
  | CouldntListenUDP net_Addr err
  | CouldntListenTCP net_Addr err
  | SSFUnsupported net_Addr
  | SSFUnixOnly net_Addr
  | CouldNotAcquireLock string net_Addr err
  | LockInUse string net_Addr
  | CouldntListenUnix net_Addr err
  | CouldntSetPermissions net_Addr err
  | IndexOutOfRange

datatype 'a outcome = Returns 'a | Panics panic_value

text \<open>The goroutine closures of the file, with what they capture, in the order of the
  file. Their bodies are the functions \<open>statsdUDPReader\<close>, \<open>tcpCloser\<close>, \<open>tcpReader\<close>,
  \<open>ssfUDPReader\<close>, \<open>unixDispatch\<close> and \<open>unixAcceptRelay\<close> below; \<open>SSFStreamReader\<close> is
  \<^verbatim>\<open>go s.ReadSSFStreamSocket(conn)\<close>.\<close>

datatype task =
    StatsdUDPReader Server net_Addr
  | TCPCloser listener
  | TCPReader listener
  | SSFUDPReader sock
  | UnixDispatch listener string
  | UnixAcceptRelay listener string
  | SSFStreamReader conn

text \<open>An event is a call that leaves the file, with its arguments and, where the code
  reads it, its result: \<open>NewSocket addr rcvbuf reuse res\<close> is
  \<^verbatim>\<open>NewSocket(addr, s.RcvbufBytes, reuse)\<close> returning \<open>res\<close>, \<open>Chmod path mode res\<close> is
  \<^verbatim>\<open>os.Chmod(path, mode)\<close>, \<open>CloseDone\<close> is \<^verbatim>\<open>close(done)\<close>, \<open>Relay c\<close> the completed send
  \<^verbatim>\<open>conns <- conn\<close>, \<open>ConsumePanic r\<close> the deferred \<^verbatim>\<open>ConsumePanic(..., recover())\<close> with
  what \<^verbatim>\<open>recover()\<close> returned. A log record holds its message and its fields.\<close>

datatype log_field = FAddress net_Addr | FMode string | FNetwork string | FError err

datatype event =
    NewSocket net_Addr int bool "err + sock"
  | ListenTCP net_Addr "err + listener"
  | TryLock string "err + bool"
  | Unlock string
  | Remove string "err option"
  | ListenUnix string string "err + listener"
  | Chmod string nat "err option"
  | CloseListener listener "err option"
  | CloseDone
  | AcceptUnix listener "err + conn"
  | Relay conn
  | LogInfo string "log_field list"
  | LogWarn string "log_field list"
  | LogFatal string "log_field list"
  | Go task
  | ReadMetricSocket sock
  | ReadTCPSocket listener
  | ReadSSFPacketSocket sock
  | ReadSSFStreamSocket conn
  | ConsumePanic "panic_value option"

type_synonym 'a effect = "event list \<times> 'a outcome"

subsection \<open>UDP metrics intake\<close>

text \<open>The body of the goroutine of \<^verbatim>\<open>startStatsdUDP\<close>. \<open>res\<close> is what its call of
  \<^verbatim>\<open>NewSocket\<close> returns. A panic of the body is recovered by the deferred
  \<^verbatim>\<open>ConsumePanic(..., recover())\<close>; without a panic \<^verbatim>\<open>recover()\<close> is nil.\<close>

definition statsdUDPReader :: "Server \<Rightarrow> net_Addr \<Rightarrow> err + sock \<Rightarrow> event list" where
  "statsdUDPReader s addr res =
     NewSocket addr (RcvbufBytes s) (numReaders s \<noteq> 1) res #
     (case res of
        Inl e \<Rightarrow> [ConsumePanic (Some (CouldntListenUDP addr e))]
      | Inr sk \<Rightarrow>
          [LogInfo ''Listening for statsd metrics on UDP socket'' [FAddress addr],
           ReadMetricSocket sk,
           ConsumePanic None])"

text \<open>The loop \<^verbatim>\<open>for i := 0; i < s.numReaders; i++ { go func() {...}() }\<close>.\<close>

function startStatsdUDP_loop :: "Server \<Rightarrow> net_Addr \<Rightarrow> int \<Rightarrow> event list" where
  "startStatsdUDP_loop s addr i =
     (if i < numReaders s
      then Go (StatsdUDPReader s addr) # startStatsdUDP_loop s addr (i + 1)
      else [])"
  by pat_completeness auto
termination
  by (relation "measure (\<lambda>(s, addr, i). nat (numReaders s - i))") auto

declare startStatsdUDP_loop.simps [simp del]

definition startStatsdUDP :: "Server \<Rightarrow> net_Addr \<Rightarrow> unit effect" where
  "startStatsdUDP s addr = (startStatsdUDP_loop s addr 0, Returns ())"

subsection \<open>TCP metrics intake\<close>

text \<open>\<open>res\<close> is what \<^verbatim>\<open>net.ListenTCP\<close> returns. The closing goroutine reads the
  variable \<^verbatim>\<open>listener\<close> only after the shutdown channel is closed, that is the value
  the variable has after the TLS wrapping.\<close>

definition startStatsdTCP :: "Server \<Rightarrow> net_Addr \<Rightarrow> err + listener \<Rightarrow> unit effect" where
  "startStatsdTCP s addr res =
     (case res of
        Inl e \<Rightarrow> ([ListenTCP addr res], Panics (CouldntListenTCP addr e))
      | Inr raw \<Rightarrow>
          (let (listener, mode) =
                 (case tlsConfig s of
                    None \<Rightarrow> (raw, ''unencrypted'')
                  | Some c \<Rightarrow>
                      (TLSListener raw c,
                       if ClientAuth c = RequireAndVerifyClientCert then ''authenticated''
                       else ''encrypted''))
           in ([ListenTCP addr res,
                Go (TCPCloser listener),
                LogInfo ''Listening for statsd metrics on TCP socket''
                  [FAddress addr, FMode mode],
                Go (TCPReader listener)],
               Returns ())))"

text \<open>The two goroutines of \<^verbatim>\<open>startStatsdTCP\<close>: the first runs once the shutdown
  channel is closed (\<open>res\<close> is what \<^verbatim>\<open>listener.Close()\<close> returns), the second reads.\<close>

definition tcpCloser :: "listener \<Rightarrow> err option \<Rightarrow> event list" where
  "tcpCloser l res =
     CloseListener l res #
     (case res of
        None \<Rightarrow> []
      | Some e \<Rightarrow> [LogWarn ''Ignoring error closing TCP listener'' [FError e]])"

definition tcpReader :: "listener \<Rightarrow> event list" where
  "tcpReader l = [ReadTCPSocket l, ConsumePanic None]"

subsection \<open>UDP trace intake\<close>

text \<open>\<open>res\<close> is what \<^verbatim>\<open>NewSocket\<close> returns. The socket is made by the caller, once,
  and one goroutine reads it.\<close>

definition startSSFUDP :: "Server \<Rightarrow> net_Addr \<Rightarrow> err + sock \<Rightarrow> unit effect" where
  "startSSFUDP s addr res =
     (case res of
        Inl e \<Rightarrow>
          ([NewSocket addr (RcvbufBytes s) (1 < numReaders s) res],
           Panics (CouldntListenUDP addr e))
      | Inr sk \<Rightarrow>
          ([NewSocket addr (RcvbufBytes s) (1 < numReaders s) res,
            Go (SSFUDPReader sk)],
           Returns ()))"

definition ssfUDPReader :: "sock \<Rightarrow> event list" where
  "ssfUDPReader sk = [ReadSSFPacketSocket sk, ConsumePanic None]"

subsection \<open>Unix-domain trace intake\<close>

text \<open>What the operating system answers to the four calls of the setup part of
  \<^verbatim>\<open>startSSFUnix\<close>: \<^verbatim>\<open>lock.TryLock()\<close>, \<^verbatim>\<open>os.Remove\<close>, \<^verbatim>\<open>net.ListenUnix\<close> and
  \<^verbatim>\<open>os.Chmod\<close>.\<close>

record unix_env =
  tryLock_res :: "err + bool"
  remove_res :: "err option"
  listen_res :: "err + listener"
  chmod_res :: "err option"

text \<open>The argument is a \<^verbatim>\<open>*net.UnixAddr\<close>: its \<^verbatim>\<open>Name\<close> (what \<^verbatim>\<open>String()\<close> returns)
  and its \<^verbatim>\<open>Net\<close>. The result of \<^verbatim>\<open>os.Remove\<close> is assigned to \<^verbatim>\<open>_\<close>. The mode
  \<^verbatim>\<open>0666\<close> is octal. The routine returns the channel \<^verbatim>\<open>done\<close>.\<close>

definition startSSFUnix :: "Server \<Rightarrow> string \<Rightarrow> string \<Rightarrow> unix_env \<Rightarrow> unit effect" where
  "startSSFUnix s name net env =
     (let addr = UnixAddr name net;
          lockname = name @ ''.lock'';
          t1 = [TryLock lockname (tryLock_res env)];
          t2 = t1 @ [Remove name (remove_res env), ListenUnix net name (listen_res env)];
          t3 = t2 @ [Chmod name 438 (chmod_res env)]
      in (if net \<noteq> ''unix'' then ([], Panics (SSFUnixOnly addr))
          else (case tryLock_res env of
                  Inl e \<Rightarrow> (t1, Panics (CouldNotAcquireLock lockname addr e))
                | Inr locked \<Rightarrow>
                    (if \<not> locked then (t1, Panics (LockInUse lockname addr))
                     else (case listen_res env of
                             Inl e \<Rightarrow> (t2, Panics (CouldntListenUnix addr e))
                           | Inr l \<Rightarrow>
                               (case chmod_res env of
                                  Some e \<Rightarrow> (t3, Panics (CouldntSetPermissions addr e))
                                | None \<Rightarrow>
                                    (t3 @ [Go (UnixDispatch l lockname)], Returns ())))))))"

text \<open>
  The inner goroutine (the accept-relay task). It blocks in \<^verbatim>\<open>listener.AcceptUnix()\<close>
  and in the send \<^verbatim>\<open>conns <- conn\<close> on the unbuffered relay; what it observes there
  is the input:
  \<^item> \<open>AcceptConn c taken\<close>: accept returns the connection \<open>c\<close>; \<open>taken\<close> tells
    whether the dispatch task ever receives it from the relay (after the dispatch task
    has returned nobody receives, and the send blocks for good);
  \<^item> \<open>AcceptErr e shut\<close>: accept fails with \<open>e\<close>; \<open>shut\<close> tells whether the shutdown
    channel is closed when the \<^verbatim>\<open>select\<close> looks at it.
  When the observations end the task is still blocked in accept. \<^verbatim>\<open>log.Fatal\<close> (logrus)
  writes the record and calls \<^verbatim>\<open>os.Exit(1)\<close>: the process ends there and deferred
  functions do not run. The deferred function (\<^verbatim>\<open>lock.Unlock(); close(done)\<close>) runs
  when the task returns.
\<close>

datatype accept_obs = AcceptConn conn bool | AcceptErr err bool

datatype relay_end = TaskReturned | ProcessExit | BlockedInAccept | BlockedOnRelay

fun unixAcceptRelay :: "listener \<Rightarrow> string \<Rightarrow> accept_obs list \<Rightarrow> event list \<times> relay_end" where
  "unixAcceptRelay l lockname [] = ([], BlockedInAccept)"
| "unixAcceptRelay l lockname (AcceptConn c taken # obs) =
     (if taken
      then (let (tr, e) = unixAcceptRelay l lockname obs
            in (AcceptUnix l (Inr c) # Relay c # tr, e))
      else ([AcceptUnix l (Inr c)], BlockedOnRelay))"
| "unixAcceptRelay l lockname (AcceptErr e shut # obs) =
     (if shut
      then ([AcceptUnix l (Inl e),
             LogInfo ''Ignoring Accept error while shutting down'' [FError e],
             Unlock lockname,
             CloseDone],
            TaskReturned)
      else ([AcceptUnix l (Inl e),
             LogFatal ''Unix accept failed'' [FError e]],
            ProcessExit))"

text \<open>The outer goroutine (the dispatch task): it starts the accept-relay task and
  then selects between the relay and the shutdown channel. \<open>GotShutdown r\<close> is the
  shutdown branch, \<open>r\<close> what \<^verbatim>\<open>listener.Close()\<close> returns (the code drops it).\<close>

datatype dispatch_obs = GotConn conn | GotShutdown "err option"

fun unixDispatch_loop :: "listener \<Rightarrow> dispatch_obs list \<Rightarrow> event list" where
  "unixDispatch_loop l [] = []"
| "unixDispatch_loop l (GotConn c # obs) = Go (SSFStreamReader c) # unixDispatch_loop l obs"
| "unixDispatch_loop l (GotShutdown r # obs) = [CloseListener l r]"

definition unixDispatch :: "listener \<Rightarrow> string \<Rightarrow> dispatch_obs list \<Rightarrow> event list" where
  "unixDispatch l lockname obs = Go (UnixAcceptRelay l lockname) # unixDispatch_loop l obs"

text \<open>A run of the Unix listener manager: the setup and, when the setup returns, the
  accept-relay task it leads to (which alone touches the lock and \<^verbatim>\<open>done\<close> afterwards).
  The second component is \<open>None\<close> when the setup panicked.\<close>

definition unixRun ::
  "Server \<Rightarrow> string \<Rightarrow> string \<Rightarrow> unix_env \<Rightarrow> accept_obs list \<Rightarrow> event list \<times> relay_end option" where
  "unixRun s name net env obs =
     (case (startSSFUnix s name net env, listen_res env) of
        ((tr, Returns u), Inr l) \<Rightarrow>
          (let (tr', e) = unixAcceptRelay l (name @ ''.lock'') obs in (tr @ tr', Some e))
      | ((tr, out), r) \<Rightarrow> (tr, None))"

text \<open>Reading a trace: whether the lock \<open>ln\<close> is held after it (\<open>held\<close> tells whether it
  was before), and whether every \<^verbatim>\<open>close(done)\<close> in it happens while the lock is free.\<close>

fun lockHeld :: "string \<Rightarrow> bool \<Rightarrow> event list \<Rightarrow> bool" where
  "lockHeld ln held [] = held"
| "lockHeld ln held (TryLock n r # tr) =
     lockHeld ln (if n = ln \<and> r = Inr True then True else held) tr"
| "lockHeld ln held (Unlock n # tr) = lockHeld ln (if n = ln then False else held) tr"
| "lockHeld ln held (ev # tr) = lockHeld ln held tr"

fun closesWhenFree :: "string \<Rightarrow> bool \<Rightarrow> event list \<Rightarrow> bool" where
  "closesWhenFree ln held [] = True"
| "closesWhenFree ln held (CloseDone # tr) = (\<not> held \<and> closesWhenFree ln held tr)"
| "closesWhenFree ln held (ev # tr) = closesWhenFree ln (lockHeld ln held [ev]) tr"

subsection \<open>The entry points\<close>

text \<open>What follows a call in the same routine happens only when the call returns.\<close>

definition andThen :: "unit effect \<Rightarrow> event list \<Rightarrow> unit effect" where
  "andThen r evs =
     (case r of
        (tr, Returns u) \<Rightarrow> (tr @ evs, Returns ())
      | (tr, Panics p) \<Rightarrow> (tr, Panics p))"

text \<open>\<open>tcp\<close> is what \<^verbatim>\<open>net.ListenTCP\<close> returns, should the TCP manager call it.\<close>

definition StartStatsd :: "Server \<Rightarrow> net_Addr \<Rightarrow> err + listener \<Rightarrow> unit effect" where
  "StartStatsd s a tcp =
     (case a of
        UDPAddr ip port \<Rightarrow> startStatsdUDP s a
      | TCPAddr ip port \<Rightarrow> startStatsdTCP s a tcp
      | _ \<Rightarrow> ([], Panics (StatsdUnsupported a)))"

text \<open>\<open>udp\<close> is what \<^verbatim>\<open>NewSocket\<close> returns and \<open>env\<close> what the operating system answers,
  should the manager that is chosen call them.\<close>

definition StartSSF :: "Server \<Rightarrow> net_Addr \<Rightarrow> err + sock \<Rightarrow> unix_env \<Rightarrow> unit effect" where
  "StartSSF s a udp env =
     (case a of
        UDPAddr ip port \<Rightarrow>
          andThen (startSSFUDP s a udp)
            [LogInfo ''Listening for SSF traces'' [FAddress a, FNetwork (Network a)]]
      | UnixAddr name net \<Rightarrow>
          andThen (startSSFUnix s name net env)
            [LogInfo ''Listening for SSF traces'' [FAddress a, FNetwork (Network a)]]
      | _ \<Rightarrow> ([], Panics (SSFUnsupported a)))"

subsection \<open>Reading a trace\<close>

text \<open>The goroutines a trace starts, the reuse flag of every \<^verbatim>\<open>NewSocket\<close> call in it, and
  the modes it logs.\<close>

definition spawned :: "event list \<Rightarrow> task list" where
  "spawned tr = [t. Go t \<leftarrow> tr]"

definition reuseFlags :: "event list \<Rightarrow> bool list" where
  "reuseFlags tr = [reuse. NewSocket a n reuse r \<leftarrow> tr]"

definition loggedModes :: "event list \<Rightarrow> string list" where
  "loggedModes tr = concat [[m. FMode m \<leftarrow> fs]. LogInfo msg fs \<leftarrow> tr]"

text \<open>The transport kind of an address, as the type switches see it.\<close>

fun isUDP :: "net_Addr \<Rightarrow> bool" where
  "isUDP (UDPAddr ip port) = True"
| "isUDP a = False"

fun isTCP :: "net_Addr \<Rightarrow> bool" where
  "isTCP (TCPAddr ip port) = True"
| "isTCP a = False"

fun isUnix :: "net_Addr \<Rightarrow> bool" where
  "isUnix (UnixAddr name net) = True"
| "isUnix a = False"

text \<open>Concrete inputs for the examples below: a server with four readers and no TLS, one
  that requires and verifies client certificates, an operating system on which binding
  the socket fails after the lock was taken, and one on which the setup goes through
  although there was no stale socket file to remove.\<close>

definition exampleServer :: Server where
  "exampleServer = \<lparr>numReaders = 4, RcvbufBytes = 2097152, tlsConfig = None\<rparr>"

definition mutualTLSServer :: Server where
  "mutualTLSServer =
     \<lparr>numReaders = 1, RcvbufBytes = 2097152,
      tlsConfig = Some \<lparr>ClientAuth = RequireAndVerifyClientCert\<rparr>\<rparr>"

definition bindFails :: unix_env where
  "bindFails =
     \<lparr>tryLock_res = Inr True, remove_res = None,
      listen_res = Inl ''bind: address already in use'', chmod_res = None\<rparr>"

definition setupWorks :: unix_env where
  "setupWorks =
     \<lparr>tryLock_res = Inr True, remove_res = Some ''remove: no such file or directory'',
      listen_res = Inr (RawListener 3), chmod_res = None\<rparr>"

section \<open>Kernel softnet statistics (networking.go)\<close>

subsection \<open>\<^verbatim>\<open>strconv.ParseInt\<close>\<close>

text \<open>
  \<^verbatim>\<open>parseSoftnetRecord\<close> decodes every field with \<^verbatim>\<open>strconv.ParseInt(c, 16, 64)\<close>. The
  standard library is not part of the repository; this is its algorithm for an explicit
  base and 64 bits. \<^verbatim>\<open>ParseUint\<close> reads the digits from the left, a letter counting from
  10 in either case; a byte that is no digit of the base is a syntax error, a value that
  does not fit 64 bits a range error, whichever comes first. \<^verbatim>\<open>ParseInt\<close> takes one
  leading sign and accepts the values from \<^verbatim>\<open>-1<<63\<close> to \<^verbatim>\<open>1<<63 - 1\<close>. The unsigned
  accumulator is a \<^verbatim>\<open>uint64\<close>: a natural number with the wrap-around written out.
\<close>

datatype num_err = ErrSyntax | ErrRange

definition digitVal :: "char \<Rightarrow> nat option" where
  "digitVal d =
     (let c = (of_char d :: nat) in
      if 48 \<le> c \<and> c \<le> 57 then Some (c - 48)
      else if 97 \<le> c \<and> c \<le> 122 then Some (c - 97 + 10)
      else if 65 \<le> c \<and> c \<le> 90 then Some (c - 65 + 10)
      else None)"

fun ParseUint_loop :: "nat \<Rightarrow> nat \<Rightarrow> string \<Rightarrow> num_err + nat" where
  "ParseUint_loop base n [] = Inr n"
| "ParseUint_loop base n (d # s) =
     (case digitVal d of
        None \<Rightarrow> Inl ErrSyntax
      | Some v \<Rightarrow>
          if v \<ge> base then Inl ErrSyntax
          else if n \<ge> 18446744073709551615 div base + 1 then Inl ErrRange
          else
            (let n' = (n * base) mod 18446744073709551616;
                 n1 = (n' + v) mod 18446744073709551616
             in if n1 < n' \<or> n1 > 18446744073709551615 then Inl ErrRange
                else ParseUint_loop base n1 s))"

definition ParseUint :: "string \<Rightarrow> nat \<Rightarrow> num_err + nat" where
  "ParseUint s base = (if s = [] then Inl ErrSyntax else ParseUint_loop base 0 s)"

definition ParseInt :: "string \<Rightarrow> nat \<Rightarrow> num_err + int" where
  "ParseInt s base =
     (if s = [] then Inl ErrSyntax
      else
        (let neg = (hd s = CHR ''-'');
             s' = (if hd s = CHR ''+'' \<or> hd s = CHR ''-'' then tl s else s)
         in case ParseUint s' base of
              Inl ErrSyntax \<Rightarrow> Inl ErrSyntax
            | Inl ErrRange \<Rightarrow> Inl ErrRange
            | Inr un \<Rightarrow>
                if \<not> neg \<and> un \<ge> 9223372036854775808 then Inl ErrRange
                else if neg \<and> un > 9223372036854775808 then Inl ErrRange
                else Inr (if neg then - int un else int un)))"

subsection \<open>\<^verbatim>\<open>encoding/csv\<close>, as \<^verbatim>\<open>parseSoftnet\<close> configures it\<close>

text \<open>
  \<^verbatim>\<open>parseSoftnet\<close> reads its input with a \<^verbatim>\<open>csv.Reader\<close> whose \<^verbatim>\<open>Comma\<close> is a space and
  whose \<^verbatim>\<open>FieldsPerRecord\<close> is 11; \<^verbatim>\<open>Comment\<close>, \<^verbatim>\<open>LazyQuotes\<close> and \<^verbatim>\<open>TrimLeadingSpace\<close>
  keep their zero values. The model follows the reader of the standard library (Go 1.10
  and later) under these settings, on an input that is read without an I/O error: the
  input is the string of its bytes.

  \<^verbatim>\<open>readLine\<close> returns the next line with its newline, a final \<^verbatim>\<open>\r\n\<close> turned into
  \<^verbatim>\<open>\n\<close>; a last line without newline loses a trailing \<^verbatim>\<open>\r\<close>. \<open>None\<close> is \<^verbatim>\<open>io.EOF\<close>.
\<close>

abbreviation NL :: char where "NL \<equiv> CHR 0x0A"
abbreviation CR :: char where "CR \<equiv> CHR 0x0D"
abbreviation Quote :: char where "Quote \<equiv> CHR 0x22"

datatype csv_error = ErrBareQuote | ErrQuote | ErrFieldCount

definition lengthNL :: "string \<Rightarrow> nat" where
  "lengthNL b = (if b \<noteq> [] \<and> last b = NL then 1 else 0)"

definition readLine :: "string \<Rightarrow> (string \<times> string) option" where
  "readLine inp =
     (if inp = [] then None
      else
        (let raw = takeWhile (\<lambda>c. c \<noteq> NL) inp
         in case dropWhile (\<lambda>c. c \<noteq> NL) inp of
              [] \<Rightarrow> Some (if last raw = CR then butlast raw else raw, [])
            | nl # rest \<Rightarrow>
                Some (if raw \<noteq> [] \<and> last raw = CR then butlast raw @ [NL] else raw @ [NL],
                      rest)))"

text \<open>What \<^verbatim>\<open>readLine\<close> returns is no longer than what it read: the reader's loops
  terminate.\<close>

lemma readLine_length:
  assumes "readLine inp = Some (x, y)"
  shows "length x + length y \<le> length inp"
proof -
  let ?raw = "takeWhile (\<lambda>c. c \<noteq> NL) inp"
  let ?after = "dropWhile (\<lambda>c. c \<noteq> NL) inp"
  have len: "length ?raw + length ?after = length inp"
    by (metis length_append takeWhile_dropWhile_id)
  from assms have ne: "inp \<noteq> []"
    by (cases "inp = []") (simp_all add: readLine_def)
  show ?thesis
  proof (cases ?after)
    case Nil
    from assms ne have "Some (if last ?raw = CR then butlast ?raw else ?raw, []) = Some (x, y)"
      unfolding readLine_def Let_def Nil by simp
    then have "y = []" and "length x \<le> length ?raw"
      by (simp_all split: if_splits, auto)
    with len Nil show ?thesis by simp
  next
    case (Cons nl r)
    from assms ne have "Some (if ?raw \<noteq> [] \<and> last ?raw = CR then butlast ?raw @ [NL] else ?raw @ [NL], r) = Some (x, y)"
      unfolding readLine_def Let_def Cons by simp
    then have "y = r" and "length x \<le> length ?raw + 1"
      by (simp_all split: if_splits, auto)
    with len Cons show ?thesis by simp
  qed
qed

lemma readLine_rest_shorter:
  assumes "readLine inp = Some (x, y)"
  shows "length y < length inp"
proof -
  let ?after = "dropWhile (\<lambda>c. c \<noteq> NL) inp"
  from assms have ne: "inp \<noteq> []"
    by (cases "inp = []") (simp_all add: readLine_def)
  have le: "length ?after \<le> length inp" by (rule length_dropWhile_le)
  show ?thesis
  proof (cases ?after)
    case Nil
    with assms ne have "y = []" by (simp add: readLine_def Let_def)
    with ne show ?thesis by simp
  next
    case (Cons nl r)
    with assms ne have "y = r" by (simp add: readLine_def Let_def)
    with le Cons show ?thesis by simp
  qed
qed

lemma tl_dropWhile_shorter:
  assumes "xs \<noteq> []"
  shows "length (tl (dropWhile P xs)) < length xs"
proof -
  have "length (dropWhile P xs) \<le> length xs" by (rule length_dropWhile_le)
  moreover have "length (tl (dropWhile P xs)) = length (dropWhile P xs) - 1" by simp
  moreover from assms have "0 < length xs" by simp
  ultimately show ?thesis by linarith
qed

text \<open>
  The loop \<^verbatim>\<open>parseField\<close> of \<^verbatim>\<open>readRecord\<close>: \<open>line\<close> is what is left of the current line,
  \<open>rest\<close> the input after it, \<open>dst\<close> the fields read so far. A field that does not start
  with a quote ends at the next comma or at the end of the line and must not hold a
  quote. \<open>quotedField\<close> is the inner loop for a field that starts with a quote, \<open>buf\<close>
  what it has read of the field: a doubled quote is a quote, a quote before a comma or
  the end of the line ends the field, any other quote is an error; a line that ends
  inside the field is continued by the next one, and the end of the input there is an
  error.
\<close>

abbreviation Comma :: char where "Comma \<equiv> CHR 0x20"

function parseField :: "string \<Rightarrow> string \<Rightarrow> string list \<Rightarrow> (csv_error + string list) \<times> string"
  and quotedField :: "string \<Rightarrow> string \<Rightarrow> string \<Rightarrow> string list \<Rightarrow> (csv_error + string list) \<times> string"
where
  "parseField line rest dst =
     (if line = [] \<or> hd line \<noteq> Quote then
        (let field = (if Comma \<in> set line then takeWhile (\<lambda>c. c \<noteq> Comma) line
                      else take (length line - lengthNL line) line)
         in if Quote \<in> set field then (Inl ErrBareQuote, rest)
            else if Comma \<in> set line
                 then parseField (tl (dropWhile (\<lambda>c. c \<noteq> Comma) line)) rest (dst @ [field])
                 else (Inr (dst @ [field]), rest))
      else quotedField (tl line) rest [] dst)"
| "quotedField line rest buf dst =
     (if Quote \<in> set line then
        (let buf' = buf @ takeWhile (\<lambda>c. c \<noteq> Quote) line;
             line' = tl (dropWhile (\<lambda>c. c \<noteq> Quote) line)
         in if line' \<noteq> [] \<and> hd line' = Quote then quotedField (tl line') rest (buf' @ [Quote]) dst
            else if line' \<noteq> [] \<and> hd line' = Comma then parseField (tl line') rest (dst @ [buf'])
            else if lengthNL line' = length line' then (Inr (dst @ [buf']), rest)
            else (Inl ErrQuote, rest))
      else if line \<noteq> [] then
        (case readLine rest of
           None \<Rightarrow> quotedField [] [] (buf @ line) dst
         | Some (line', rest') \<Rightarrow> quotedField line' rest' (buf @ line) dst)
      else (Inl ErrQuote, rest))"
  by pat_completeness auto
termination
proof (relation "measure (\<lambda>x. case x of Inl (line, rest, dst) \<Rightarrow> length line + length rest
                                    | Inr (line, rest, buf, dst) \<Rightarrow> length line + length rest)",
       goal_cases)
  case 1
  show ?case by simp
next
  case (2 line rest dst x)
  then have "line \<noteq> []" by auto
  from tl_dropWhile_shorter [OF this] show ?case by simp
next
  case (3 line rest dst)
  then show ?case by (cases line) simp_all
next
  case (4 line rest buf dst x xa)
  then have "line \<noteq> []" by auto
  from tl_dropWhile_shorter [OF this, of "\<lambda>c. c \<noteq> Quote"] 4 show ?case
    by (cases xa) simp_all
next
  case (5 line rest buf dst x xa)
  then have "line \<noteq> []" by auto
  from tl_dropWhile_shorter [OF this, of "\<lambda>c. c \<noteq> Quote"] 5 show ?case
    by (cases xa) simp_all
next
  case (6 line rest buf dst)
  then show ?case by (cases line) simp_all
next
  case (7 line rest buf dst x2 x y)
  then have "readLine rest = Some (x, y)" by simp
  from readLine_length [OF this] 7 show ?case by (cases line) simp_all
qed

declare parseField.simps [simp del] quotedField.simps [simp del]

text \<open>Parsing a record consumes input only.\<close>

lemma parseField_rest:
  "length (snd (parseField line rest dst)) \<le> length rest"
  "length (snd (quotedField line rest buf dst)) \<le> length rest"
proof (induction line rest dst and line rest buf dst rule: parseField_quotedField.induct)
  case (1 line rest dst)
  then show ?case
    by (subst parseField.simps) (simp add: Let_def)
next
  case (2 line rest buf dst)
  show ?case
  proof (cases "readLine rest")
    case None
    with 2 show ?thesis
      by (subst quotedField.simps) (simp add: Let_def)
  next
    case (Some p)
    obtain x y where p: "p = (x, y)" by (cases p)
    from readLine_length [of rest x y] Some p have le: "length y \<le> length rest" by simp
    have next_line: "length (snd (quotedField x y (buf @ line) dst)) \<le> length rest"
      if "Quote \<notin> set line" and "line \<noteq> []"
    proof -
      from "2.IH"(4) [OF that Some [unfolded p] refl] 
      have "length (snd (quotedField x y (buf @ line) dst)) \<le> length y" .
      with le show ?thesis by simp
    qed
    from "2.IH"(1,2) next_line Some p show ?thesis
      by (subst quotedField.simps) (simp add: Let_def)
  qed
qed

text \<open>The head of \<^verbatim>\<open>readRecord\<close>: empty lines are skipped.\<close>

function nextLine :: "string \<Rightarrow> (string \<times> string) option" where
  "nextLine inp =
     (case readLine inp of
        None \<Rightarrow> None
      | Some (line, rest) \<Rightarrow>
          if length line = lengthNL line then nextLine rest else Some (line, rest))"
  by pat_completeness auto
termination
  by (relation "measure length") (auto dest: readLine_rest_shorter)

declare nextLine.simps [simp del]

lemma nextLine_rest_shorter:
  "nextLine inp = Some (line, rest) \<Longrightarrow> length rest < length inp"
proof (induction inp rule: nextLine.induct)
  case (1 inp)
  from "1.prems" obtain l r where rl: "readLine inp = Some (l, r)"
    by (subst (asm) nextLine.simps) (auto split: option.splits)
  from readLine_rest_shorter [OF rl] have lt: "length r < length inp" .
  show ?case
  proof (cases "length l = lengthNL l")
    case True
    with "1.prems" rl have "nextLine r = Some (line, rest)"
      by (subst (asm) nextLine.simps) simp
    with "1.IH" rl True have "length rest < length r" by simp
    with lt show ?thesis by simp
  next
    case False
    with "1.prems" rl have "rest = r"
      by (subst (asm) nextLine.simps) simp
    with lt show ?thesis by simp
  qed
qed

definition readRecord :: "string \<Rightarrow> ((csv_error + string list) \<times> string) option" where
  "readRecord inp =
     (case nextLine inp of
        None \<Rightarrow> None
      | Some (line, rest) \<Rightarrow> Some (parseField line rest []))"

lemma readRecord_rest_shorter:
  assumes "readRecord inp = Some (res, rest)"
  shows "length rest < length inp"
proof -
  from assms obtain line r where nl: "nextLine inp = Some (line, r)"
    and pf: "parseField line r [] = (res, rest)"
    by (auto simp: readRecord_def split: option.splits)
  from parseField_rest(1) [of line r "[]"] pf have "length rest \<le> length r" by simp
  with nextLine_rest_shorter [OF nl] show ?thesis by simp
qed

text \<open>\<^verbatim>\<open>ReadAll\<close> reads records until \<^verbatim>\<open>io.EOF\<close> and returns no record when one fails.
  A positive \<^verbatim>\<open>FieldsPerRecord\<close> is the number of fields every record must have, zero
  stands for the number of fields of the first record, and with a negative one no check
  is made.\<close>

function ReadAll_loop :: "int \<Rightarrow> string \<Rightarrow> csv_error + string list list" where
  "ReadAll_loop fieldsPerRecord inp =
     (case readRecord inp of
        None \<Rightarrow> Inr []
      | Some (Inl e, rest) \<Rightarrow> Inl e
      | Some (Inr record, rest) \<Rightarrow>
          if 0 < fieldsPerRecord \<and> int (length record) \<noteq> fieldsPerRecord then Inl ErrFieldCount
          else
            (case ReadAll_loop (if fieldsPerRecord = 0 then int (length record) else fieldsPerRecord) rest of
               Inl e \<Rightarrow> Inl e
             | Inr records \<Rightarrow> Inr (record # records)))"
  by pat_completeness auto
termination
  by (relation "measure (\<lambda>(f, inp). length inp)") (auto dest: readRecord_rest_shorter)

declare ReadAll_loop.simps [simp del]

definition ReadAll :: "int \<Rightarrow> string \<Rightarrow> csv_error + string list list" where
  "ReadAll fieldsPerRecord inp = ReadAll_loop fieldsPerRecord inp"

subsection \<open>\<^verbatim>\<open>parseSoftnet\<close>\<close>

text \<open>The errors the parser returns: the one of the csv reader, the \<^verbatim>\<open>*strconv.NumError\<close>
  of a field (with the field), and the error of opening the file. The counters are
  \<^verbatim>\<open>int64\<close>; \<^verbatim>\<open>ParseInt\<close> returns no value outside their range and the file does no
  arithmetic on them.\<close>

datatype error = CsvError csv_error | NumError string num_err | PathError string

record SoftnetDataProcessor =
  Processed :: int
  Dropped :: int
  TimeSqueeze :: int
  CPUCollision :: int
  ReceivedRPS :: int
  FlowLimitCount :: int

record SoftnetData =
  Processors :: "SoftnetDataProcessor list"

text \<open>\<^verbatim>\<open>parseSoftnetRecord\<close> stops at the first field that does not decode.\<close>

fun parseSoftnetRecord :: "string list \<Rightarrow> error + int list" where
  "parseSoftnetRecord [] = Inr []"
| "parseSoftnetRecord (c # cs) =
     (case ParseInt c 16 of
        Inl e \<Rightarrow> Inl (NumError c e)
      | Inr n \<Rightarrow>
          (case parseSoftnetRecord cs of
             Inl e \<Rightarrow> Inl e
           | Inr r \<Rightarrow> Inr (n # r)))"

text \<open>The loop over the records. An index past the end of \<^verbatim>\<open>fields\<close> is a run-time
  panic in Go. On an error the function returns \<^verbatim>\<open>SoftnetData{}\<close>, not the records
  parsed so far.\<close>

fun parseSoftnet_loop :: "string list list \<Rightarrow> (error + SoftnetDataProcessor list) outcome" where
  "parseSoftnet_loop [] = Returns (Inr [])"
| "parseSoftnet_loop (processor # records) =
     (case parseSoftnetRecord processor of
        Inl e \<Rightarrow> Returns (Inl e)
      | Inr flds \<Rightarrow>
          if length flds \<le> 10 then Panics IndexOutOfRange
          else
            (let sdp = \<lparr>Processed = flds ! 0,
                        Dropped = flds ! 1,
                        TimeSqueeze = flds ! 2,
                        CPUCollision = flds ! 8,
                        ReceivedRPS = flds ! 9,
                        FlowLimitCount = flds ! 10\<rparr>
             in case parseSoftnet_loop records of
                  Returns (Inr sdps) \<Rightarrow> Returns (Inr (sdp # sdps))
                | other \<Rightarrow> other))"

definition parseSoftnet :: "string \<Rightarrow> (SoftnetData \<times> error option) outcome" where
  "parseSoftnet r =
     (case ReadAll 11 r of
        Inl e \<Rightarrow> Returns (\<lparr>Processors = []\<rparr>, Some (CsvError e))
      | Inr records \<Rightarrow>
          (case parseSoftnet_loop records of
             Panics p \<Rightarrow> Panics p
           | Returns (Inl e) \<Rightarrow> Returns (\<lparr>Processors = []\<rparr>, Some e)
           | Returns (Inr sdps) \<Rightarrow> Returns (\<lparr>Processors = sdps\<rparr>, None)))"

text \<open>\<^verbatim>\<open>SoftnetStat\<close>: \<open>f\<close> is what opening \<^verbatim>\<open>/proc/net/softnet_stat\<close> gives, an error or
  the bytes of the file.\<close>

definition SoftnetStat :: "err + string \<Rightarrow> (SoftnetData \<times> error option) outcome" where
  "SoftnetStat f =
     (case f of
        Inl e \<Rightarrow> Returns (\<lparr>Processors = []\<rparr>, Some (PathError e))
      | Inr contents \<Rightarrow> parseSoftnet contents)"

subsection \<open>Well-formed input\<close>

text \<open>
  The text of a report: the fields of a row joined by one space, the rows separated by
  newlines, with or without a newline after the last row (\<open>final\<close>). \<open>hexValue\<close> is the
  value of a field that decodes, \<open>processorOf\<close> the record of a row by the positions of
  its fields, and a plain field holds no quote, space, newline or carriage return.
\<close>

fun joinFields :: "string list \<Rightarrow> string" where
  "joinFields [] = []"
| "joinFields [f] = f"
| "joinFields (f # g # fs) = f @ Comma # joinFields (g # fs)"

fun softnetText :: "string list list \<Rightarrow> bool \<Rightarrow> string" where
  "softnetText [] final = []"
| "softnetText [r] final = joinFields r @ (if final then [NL] else [])"
| "softnetText (r # r' # rs) final = joinFields r @ NL # softnetText (r' # rs) final"

definition hexValue :: "string \<Rightarrow> int" where
  "hexValue f = (case ParseInt f 16 of Inr n \<Rightarrow> n | Inl e \<Rightarrow> 0)"

definition processorOf :: "string list \<Rightarrow> SoftnetDataProcessor" where
  "processorOf row =
     \<lparr>Processed = hexValue (row ! 0),
      Dropped = hexValue (row ! 1),
      TimeSqueeze = hexValue (row ! 2),
      CPUCollision = hexValue (row ! 8),
      ReceivedRPS = hexValue (row ! 9),
      FlowLimitCount = hexValue (row ! 10)\<rparr>"

definition plainField :: "string \<Rightarrow> bool" where
  "plainField f = (Quote \<notin> set f \<and> Comma \<notin> set f \<and> NL \<notin> set f \<and> CR \<notin> set f)"

text \<open>The fields the kernel prints are runs of hexadecimal digits (eight of them):
  \<open>hexNat 0 f\<close> is the number such a field \<open>f\<close> denotes in base 16.\<close>

definition isHexDigit :: "char \<Rightarrow> bool" where
  "isHexDigit c = (case digitVal c of Some v \<Rightarrow> v < 16 | None \<Rightarrow> False)"

fun hexNat :: "nat \<Rightarrow> string \<Rightarrow> nat" where
  "hexNat n [] = n"
| "hexNat n (c # cs) = hexNat (16 * n + the (digitVal c)) cs"

definition hexProcessorOf :: "string list \<Rightarrow> SoftnetDataProcessor" where
  "hexProcessorOf row =
     \<lparr>Processed = int (hexNat 0 (row ! 0)),
      Dropped = int (hexNat 0 (row ! 1)),
      TimeSqueeze = int (hexNat 0 (row ! 2)),
      CPUCollision = int (hexNat 0 (row ! 8)),
      ReceivedRPS = int (hexNat 0 (row ! 9)),
      FlowLimitCount = int (hexNat 0 (row ! 10))\<rparr>"

section \<open>Properties of the listener orchestration\<close>

subsection \<open>UDP readers\<close>

lemma startStatsdUDP_loop_replicate:
  "startStatsdUDP_loop s addr i =
     replicate (nat (numReaders s - i)) (Go (StatsdUDPReader s addr))"
proof (induction s addr i rule: startStatsdUDP_loop.induct)
  case (1 s addr i)
  show ?case
  proof (cases "i < numReaders s")
    case True
    then have "nat (numReaders s - i) = Suc (nat (numReaders s - (i + 1)))" by simp
    with True 1 show ?thesis
      by (simp add: startStatsdUDP_loop.simps [of s addr i])
  next
    case False
    then show ?thesis
      by (simp add: startStatsdUDP_loop.simps [of s addr i])
  qed
qed

lemma spawned_replicate: "spawned (replicate n (Go t)) = replicate n t"
  by (induction n) (simp_all add: spawned_def)

lemma reuse_statsdUDPReader: "reuseFlags (statsdUDPReader s addr res) = [numReaders s \<noteq> 1]"
  by (simp add: statsdUDPReader_def reuseFlags_def split: sum.split)

lemma reuse_startSSFUDP: "reuseFlags (fst (startSSFUDP s addr res)) = [1 < numReaders s]"
  by (simp add: startSSFUDP_def reuseFlags_def split: sum.split)

text \<open>
  C2. With at least one reader configured, every goroutine the UDP metrics intake starts
  is the reader closure over the server and the address, and the socket that closure
  makes has port reuse switched on exactly when more than one reader is configured; so
  has the socket of the UDP trace intake: the flags \<^verbatim>\<open>numReaders != 1\<close> and
  \<^verbatim>\<open>numReaders > 1\<close> agree from 1 on.
\<close>

theorem udp_reuse_iff_many_readers:
  assumes "1 \<le> numReaders s"
  shows "set (spawned (fst (startStatsdUDP s addr))) = {StatsdUDPReader s addr}
     \<and> reuseFlags (statsdUDPReader s addr res) = [1 < numReaders s]
     \<and> reuseFlags (fst (startSSFUDP s addr' res')) = [1 < numReaders s]"
  using assms
  by (auto simp: reuse_statsdUDPReader reuse_startSSFUDP startStatsdUDP_def
      startStatsdUDP_loop_replicate spawned_replicate)

theorem udp_reuse_iff_many_readers_witness:
  "set (spawned (fst (startStatsdUDP exampleServer (UDPAddr ''127.0.0.1'' 8126)))) =
     {StatsdUDPReader exampleServer (UDPAddr ''127.0.0.1'' 8126)}
   \<and> reuseFlags (statsdUDPReader exampleServer (UDPAddr ''127.0.0.1'' 8126) (Inr 5)) = [True]
   \<and> reuseFlags (fst (startSSFUDP exampleServer (UDPAddr ''127.0.0.1'' 8128) (Inr 6))) = [True]
   \<and> reuseFlags (statsdUDPReader mutualTLSServer (UDPAddr ''127.0.0.1'' 8126) (Inr 5)) = [False]
   \<and> reuseFlags (fst (startSSFUDP mutualTLSServer (UDPAddr ''127.0.0.1'' 8128) (Inr 6))) = [False]"
  using udp_reuse_iff_many_readers [where s = exampleServer
      and addr = "UDPAddr ''127.0.0.1'' 8126" and res = "Inr 5"
      and addr' = "UDPAddr ''127.0.0.1'' 8128" and res' = "Inr 6"]
    udp_reuse_iff_many_readers [where s = mutualTLSServer
      and addr = "UDPAddr ''127.0.0.1'' 8126" and res = "Inr 5"
      and addr' = "UDPAddr ''127.0.0.1'' 8128" and res' = "Inr 6"]
  by (simp add: exampleServer_def mutualTLSServer_def)

text \<open>
  The metrics intake starts as many reader goroutines as readers are configured (none
  for a count below one), and each of them makes a socket of its own on the address it
  was given.
\<close>

theorem startStatsdUDP_spawns_numReaders:
  "spawned (fst (startStatsdUDP s addr)) =
     replicate (nat (numReaders s)) (StatsdUDPReader s addr)
   \<and> hd (statsdUDPReader s addr res) =
     NewSocket addr (RcvbufBytes s) (numReaders s \<noteq> 1) res"
  by (simp add: startStatsdUDP_def startStatsdUDP_loop_replicate spawned_replicate
      statsdUDPReader_def)

text \<open>
  C3. The trace intake does not start one worker per configured reader: whatever
  \<^verbatim>\<open>numReaders\<close> is, \<^verbatim>\<open>startSSFUDP\<close> makes one socket itself and starts one goroutine
  that reads it. With four readers configured it starts one.
\<close>

theorem startSSFUDP_spawns_one_reader:
  "spawned (fst (startSSFUDP s addr (Inr sk))) = [SSFUDPReader sk]
   \<and> fst (startSSFUDP exampleServer (UDPAddr ''127.0.0.1'' 8128) (Inr 6)) =
       [NewSocket (UDPAddr ''127.0.0.1'' 8128) 2097152 True (Inr 6), Go (SSFUDPReader 6)]"
  by (simp add: startSSFUDP_def spawned_def exampleServer_def)

subsection \<open>Dispatch on the address\<close>

text \<open>
  C5. An address that is neither UDP nor TCP makes \<^verbatim>\<open>StartStatsd\<close> panic, and an
  address that is neither UDP nor Unix-domain makes \<^verbatim>\<open>StartSSF\<close> panic; neither does
  anything before, and neither returns.
\<close>

theorem unsupported_address_panics:
  "(\<not> isUDP a \<and> \<not> isTCP a \<longrightarrow> StartStatsd s a tcp = ([], Panics (StatsdUnsupported a)))
   \<and> (\<not> isUDP a \<and> \<not> isUnix a \<longrightarrow> StartSSF s a udp env = ([], Panics (SSFUnsupported a)))"
  by (cases a) (simp_all add: StartStatsd_def StartSSF_def)

theorem unsupported_address_panics_witness:
  "StartStatsd exampleServer (UnixAddr ''/var/run/veneur/ssf.sock'' ''unix'') (Inr (RawListener 3)) =
     ([], Panics (StatsdUnsupported (UnixAddr ''/var/run/veneur/ssf.sock'' ''unix'')))
   \<and> StartSSF exampleServer (TCPAddr ''127.0.0.1'' 8126) (Inr 6) setupWorks =
     ([], Panics (SSFUnsupported (TCPAddr ''127.0.0.1'' 8126)))"
  using unsupported_address_panics [where a = "UnixAddr ''/var/run/veneur/ssf.sock'' ''unix''"
      and s = exampleServer and tcp = "Inr (RawListener 3)" and udp = "Inr 6"
      and env = setupWorks]
    unsupported_address_panics [where a = "TCPAddr ''127.0.0.1'' 8126"
      and s = exampleServer and tcp = "Inr (RawListener 3)" and udp = "Inr 6"
      and env = setupWorks]
  by simp

subsection \<open>TCP security mode\<close>

text \<open>
  C6. When the TCP listener is bound, \<^verbatim>\<open>startStatsdTCP\<close> logs one mode: \<^verbatim>\<open>unencrypted\<close>
  exactly when there is no TLS configuration, \<^verbatim>\<open>authenticated\<close> exactly when there is
  one that requires and verifies a client certificate, \<^verbatim>\<open>encrypted\<close> exactly when there
  is one that does not. The listener handed on is the raw one without a TLS
  configuration and the raw one wrapped by TLS with one.
\<close>

theorem tcp_mode_by_tls_config:
  "\<exists>m l. loggedModes (fst (startStatsdTCP s addr (Inr raw))) = [m]
     \<and> spawned (fst (startStatsdTCP s addr (Inr raw))) = [TCPCloser l, TCPReader l]
     \<and> (m = ''unencrypted'' \<longleftrightarrow> tlsConfig s = None)
     \<and> (m = ''authenticated'' \<longleftrightarrow>
          (\<exists>c. tlsConfig s = Some c \<and> ClientAuth c = RequireAndVerifyClientCert))
     \<and> (m = ''encrypted'' \<longleftrightarrow>
          (\<exists>c. tlsConfig s = Some c \<and> ClientAuth c \<noteq> RequireAndVerifyClientCert))
     \<and> l = (case tlsConfig s of None \<Rightarrow> raw | Some c \<Rightarrow> TLSListener raw c)"
  by (cases "tlsConfig s") (auto simp: startStatsdTCP_def loggedModes_def spawned_def)

theorem tcp_mode_by_tls_config_witness:
  "loggedModes (fst (startStatsdTCP mutualTLSServer (TCPAddr ''0.0.0.0'' 8126) (Inr (RawListener 4))))
     = [''authenticated'']
   \<and> spawned (fst (startStatsdTCP mutualTLSServer (TCPAddr ''0.0.0.0'' 8126) (Inr (RawListener 4))))
     = [TCPCloser (TLSListener (RawListener 4) \<lparr>ClientAuth = RequireAndVerifyClientCert\<rparr>),
        TCPReader (TLSListener (RawListener 4) \<lparr>ClientAuth = RequireAndVerifyClientCert\<rparr>)]"
  using tcp_mode_by_tls_config [where s = mutualTLSServer
      and addr = "TCPAddr ''0.0.0.0'' 8126" and raw = "RawListener 4"]
  by (auto simp: mutualTLSServer_def)

subsection \<open>The Unix listener: lock and completion channel\<close>

lemma relay_unlocks:
  "count_list (fst (unixAcceptRelay l ln obs)) (Unlock ln) =
     (if snd (unixAcceptRelay l ln obs) = TaskReturned then 1 else 0)"
  by (induction l ln obs rule: unixAcceptRelay.induct) (auto split: prod.splits)

lemma relay_closes:
  "count_list (fst (unixAcceptRelay l ln obs)) CloseDone =
     (if snd (unixAcceptRelay l ln obs) = TaskReturned then 1 else 0)"
  by (induction l ln obs rule: unixAcceptRelay.induct) (auto split: prod.splits)

lemma relay_closesWhenFree: "closesWhenFree ln held (fst (unixAcceptRelay l ln obs))"
  by (induction l ln obs arbitrary: held rule: unixAcceptRelay.induct)
    (auto split: prod.splits)

lemma relay_free_at_end:
  "snd (unixAcceptRelay l ln obs) = TaskReturned \<Longrightarrow>
     \<not> lockHeld ln held (fst (unixAcceptRelay l ln obs))"
  by (induction l ln obs arbitrary: held rule: unixAcceptRelay.induct)
    (auto split: prod.splits if_splits)

lemma lockHeld_append: "lockHeld ln held (a @ b) = lockHeld ln (lockHeld ln held a) b"
  by (induction ln held a rule: lockHeld.induct) simp_all

lemma closesWhenFree_append:
  "closesWhenFree ln held (a @ b) =
     (closesWhenFree ln held a \<and> closesWhenFree ln (lockHeld ln held a) b)"
  by (induction ln held a rule: closesWhenFree.induct) (simp_all add: lockHeld_append)

lemma setup_no_unlock: "count_list (fst (startSSFUnix s name net env)) (Unlock ln) = 0"
  by (simp add: startSSFUnix_def Let_def split: sum.split option.split)

lemma setup_no_close: "count_list (fst (startSSFUnix s name net env)) CloseDone = 0"
  by (simp add: startSSFUnix_def Let_def split: sum.split option.split)

lemma setup_closesWhenFree: "closesWhenFree ln held (fst (startSSFUnix s name net env))"
  by (simp add: startSSFUnix_def Let_def split: sum.split option.split)

lemma unixRun_cases:
  "unixRun s name net env obs =
     (case (snd (startSSFUnix s name net env), listen_res env) of
        (Returns u, Inr l) \<Rightarrow>
          (fst (startSSFUnix s name net env) @ fst (unixAcceptRelay l (name @ ''.lock'') obs),
           Some (snd (unixAcceptRelay l (name @ ''.lock'') obs)))
      | _ \<Rightarrow> (fst (startSSFUnix s name net env), None))"
  by (auto simp: unixRun_def split: prod.splits outcome.splits sum.splits)

text \<open>
  C1 (as the code has it). The lock is never released more than once. It is released
  exactly once in the runs in which the accept-relay task returns, that is when accept
  fails after the shutdown channel was closed: the deferred function of that task is the
  only place that unlocks. In every other run no release happens: when binding the
  socket or setting its permissions fails after the lock was taken the routine panics
  with the lock held, and a failing accept without shutdown ends the process in
  \<^verbatim>\<open>log.Fatal\<close>.
\<close>

theorem unix_lock_released_iff_relay_returns:
  "count_list (fst (unixRun s name net env obs)) (Unlock (name @ ''.lock'')) =
     (if snd (unixRun s name net env obs) = Some TaskReturned then 1 else 0)"
  by (simp add: unixRun_cases setup_no_unlock relay_unlocks split: outcome.split sum.split)

theorem unix_lock_released_iff_relay_returns_witness:
  "unixRun exampleServer ''/var/run/veneur/ssf.sock'' ''unix'' setupWorks
       [AcceptConn 5 True, AcceptErr ''use of closed network connection'' True] =
      ([TryLock ''/var/run/veneur/ssf.sock.lock'' (Inr True),
        Remove ''/var/run/veneur/ssf.sock'' (Some ''remove: no such file or directory''),
        ListenUnix ''unix'' ''/var/run/veneur/ssf.sock'' (Inr (RawListener 3)),
        Chmod ''/var/run/veneur/ssf.sock'' 438 None,
        Go (UnixDispatch (RawListener 3) ''/var/run/veneur/ssf.sock.lock''),
        AcceptUnix (RawListener 3) (Inr 5),
        Relay 5,
        AcceptUnix (RawListener 3) (Inl ''use of closed network connection''),
        LogInfo ''Ignoring Accept error while shutting down''
          [FError ''use of closed network connection''],
        Unlock ''/var/run/veneur/ssf.sock.lock'',
        CloseDone],
       Some TaskReturned)
   \<and> count_list (fst (unixRun exampleServer ''/var/run/veneur/ssf.sock'' ''unix'' setupWorks
       [AcceptConn 5 True, AcceptErr ''use of closed network connection'' True]))
       (Unlock (''/var/run/veneur/ssf.sock'' @ ''.lock'')) = 1"
proof -
  have run: "unixRun exampleServer ''/var/run/veneur/ssf.sock'' ''unix'' setupWorks
       [AcceptConn 5 True, AcceptErr ''use of closed network connection'' True] =
      ([TryLock ''/var/run/veneur/ssf.sock.lock'' (Inr True),
        Remove ''/var/run/veneur/ssf.sock'' (Some ''remove: no such file or directory''),
        ListenUnix ''unix'' ''/var/run/veneur/ssf.sock'' (Inr (RawListener 3)),
        Chmod ''/var/run/veneur/ssf.sock'' 438 None,
        Go (UnixDispatch (RawListener 3) ''/var/run/veneur/ssf.sock.lock''),
        AcceptUnix (RawListener 3) (Inr 5),
        Relay 5,
        AcceptUnix (RawListener 3) (Inl ''use of closed network connection''),
        LogInfo ''Ignoring Accept error while shutting down''
          [FError ''use of closed network connection''],
        Unlock ''/var/run/veneur/ssf.sock.lock'',
        CloseDone],
       Some TaskReturned)"
    by (simp add: unixRun_def startSSFUnix_def setupWorks_def exampleServer_def Let_def)
  from unix_lock_released_iff_relay_returns [where s = exampleServer
      and name = "''/var/run/veneur/ssf.sock''" and net = "''unix''" and env = setupWorks
      and obs = "[AcceptConn 5 True, AcceptErr ''use of closed network connection'' True]"]
  have "count_list (fst (unixRun exampleServer ''/var/run/veneur/ssf.sock'' ''unix'' setupWorks
       [AcceptConn 5 True, AcceptErr ''use of closed network connection'' True]))
       (Unlock (''/var/run/veneur/ssf.sock'' @ ''.lock'')) = 1"
    unfolding run by simp
  with run show ?thesis by blast
qed

text \<open>
  The lock is taken, binding the socket fails, the routine panics: the lock was not
  released on this exit path.
\<close>

theorem unix_lock_held_after_bind_failure:
  "unixRun exampleServer ''/var/run/veneur/ssf.sock'' ''unix'' bindFails [] =
      ([TryLock ''/var/run/veneur/ssf.sock.lock'' (Inr True),
        Remove ''/var/run/veneur/ssf.sock'' None,
        ListenUnix ''unix'' ''/var/run/veneur/ssf.sock'' (Inl ''bind: address already in use'')],
       None)
   \<and> snd (startSSFUnix exampleServer ''/var/run/veneur/ssf.sock'' ''unix'' bindFails) =
       Panics (CouldntListenUnix (UnixAddr ''/var/run/veneur/ssf.sock'' ''unix'')
         ''bind: address already in use'')
   \<and> count_list (fst (unixRun exampleServer ''/var/run/veneur/ssf.sock'' ''unix'' bindFails []))
        (Unlock ''/var/run/veneur/ssf.sock.lock'') = 0
   \<and> lockHeld ''/var/run/veneur/ssf.sock.lock'' False
        (fst (unixRun exampleServer ''/var/run/veneur/ssf.sock'' ''unix'' bindFails []))"
  by (simp add: unixRun_def startSSFUnix_def bindFails_def exampleServer_def Let_def)

text \<open>
  C4 (as the code has it). The completion channel is never closed more than once and
  never while the lock is held. It is closed exactly once in the runs in which the
  accept-relay task returns (accept fails after the shutdown channel was closed), and
  then the lock is free afterwards, so that a fresh \<^verbatim>\<open>TryLock\<close> can succeed. In the runs
  in which accept fails without shutdown the process ends in \<^verbatim>\<open>log.Fatal\<close> and the
  channel is not closed.
\<close>

theorem unix_done_closed_iff_relay_returns:
  "count_list (fst (unixRun s name net env obs)) CloseDone =
     (if snd (unixRun s name net env obs) = Some TaskReturned then 1 else 0)
   \<and> closesWhenFree (name @ ''.lock'') False (fst (unixRun s name net env obs))
   \<and> \<not> (snd (unixRun s name net env obs) = Some TaskReturned
        \<and> lockHeld (name @ ''.lock'') False (fst (unixRun s name net env obs)))"
  by (simp add: unixRun_cases setup_no_close relay_closes closesWhenFree_append lockHeld_append
      setup_closesWhenFree relay_closesWhenFree relay_free_at_end
      split: outcome.split sum.split)

theorem unix_done_closed_iff_relay_returns_witness:
  "snd (unixRun exampleServer ''/var/run/veneur/ssf.sock'' ''unix'' setupWorks
       [AcceptErr ''use of closed network connection'' True]) = Some TaskReturned
   \<and> count_list (fst (unixRun exampleServer ''/var/run/veneur/ssf.sock'' ''unix'' setupWorks
       [AcceptErr ''use of closed network connection'' True])) CloseDone = 1
   \<and> closesWhenFree (''/var/run/veneur/ssf.sock'' @ ''.lock'') False
       (fst (unixRun exampleServer ''/var/run/veneur/ssf.sock'' ''unix'' setupWorks
         [AcceptErr ''use of closed network connection'' True]))
   \<and> \<not> lockHeld (''/var/run/veneur/ssf.sock'' @ ''.lock'') False
       (fst (unixRun exampleServer ''/var/run/veneur/ssf.sock'' ''unix'' setupWorks
         [AcceptErr ''use of closed network connection'' True]))"
proof -
  have ret: "snd (unixRun exampleServer ''/var/run/veneur/ssf.sock'' ''unix'' setupWorks
       [AcceptErr ''use of closed network connection'' True]) = Some TaskReturned"
    by (simp add: unixRun_def startSSFUnix_def setupWorks_def exampleServer_def Let_def)
  from unix_done_closed_iff_relay_returns [where s = exampleServer
      and name = "''/var/run/veneur/ssf.sock''" and net = "''unix''" and env = setupWorks
      and obs = "[AcceptErr ''use of closed network connection'' True]"] ret
  show ?thesis by simp
qed

text \<open>
  The setup goes through and the channel is returned; a connection is accepted and
  relayed; then accept fails while the shutdown channel is open. The task logs with
  \<^verbatim>\<open>log.Fatal\<close>, which ends the process: the channel is not closed and the lock not
  released.
\<close>

theorem unix_done_open_after_fatal_accept:
  "unixRun exampleServer ''/var/run/veneur/ssf.sock'' ''unix'' setupWorks
       [AcceptConn 5 True, AcceptErr ''accept: too many open files'' False] =
      ([TryLock ''/var/run/veneur/ssf.sock.lock'' (Inr True),
        Remove ''/var/run/veneur/ssf.sock'' (Some ''remove: no such file or directory''),
        ListenUnix ''unix'' ''/var/run/veneur/ssf.sock'' (Inr (RawListener 3)),
        Chmod ''/var/run/veneur/ssf.sock'' 438 None,
        Go (UnixDispatch (RawListener 3) ''/var/run/veneur/ssf.sock.lock''),
        AcceptUnix (RawListener 3) (Inr 5),
        Relay 5,
        AcceptUnix (RawListener 3) (Inl ''accept: too many open files''),
        LogFatal ''Unix accept failed'' [FError ''accept: too many open files'']],
       Some ProcessExit)
   \<and> snd (startSSFUnix exampleServer ''/var/run/veneur/ssf.sock'' ''unix'' setupWorks) = Returns ()
   \<and> count_list (fst (unixRun exampleServer ''/var/run/veneur/ssf.sock'' ''unix'' setupWorks
       [AcceptConn 5 True, AcceptErr ''accept: too many open files'' False])) CloseDone = 0"
  by (simp add: unixRun_def startSSFUnix_def setupWorks_def exampleServer_def Let_def)

text \<open>
  C7. Once the lock is taken, \<^verbatim>\<open>startSSFUnix\<close> calls \<^verbatim>\<open>os.Remove\<close> on the socket path
  before it binds, and drops what the call returns: when binding and setting the
  permissions succeed the routine returns, whether the removal found a file or failed
  because there was none.
\<close>

theorem unix_setup_ignores_remove_result:
  assumes "tryLock_res env = Inr True" and "listen_res env = Inr l" and "chmod_res env = None"
  shows "startSSFUnix s name ''unix'' env =
     ([TryLock (name @ ''.lock'') (Inr True),
       Remove name (remove_res env),
       ListenUnix ''unix'' name (Inr l),
       Chmod name 438 None,
       Go (UnixDispatch l (name @ ''.lock''))],
      Returns ())"
  using assms by (simp add: startSSFUnix_def Let_def)

theorem unix_setup_ignores_remove_result_witness:
  "startSSFUnix exampleServer ''/var/run/veneur/ssf.sock'' ''unix'' setupWorks =
     ([TryLock ''/var/run/veneur/ssf.sock.lock'' (Inr True),
       Remove ''/var/run/veneur/ssf.sock'' (Some ''remove: no such file or directory''),
       ListenUnix ''unix'' ''/var/run/veneur/ssf.sock'' (Inr (RawListener 3)),
       Chmod ''/var/run/veneur/ssf.sock'' 438 None,
       Go (UnixDispatch (RawListener 3) ''/var/run/veneur/ssf.sock.lock'')],
      Returns ())
   \<and> startSSFUnix exampleServer ''/var/run/veneur/ssf.sock'' ''unix''
       (setupWorks\<lparr>remove_res := None\<rparr>) =
     ([TryLock ''/var/run/veneur/ssf.sock.lock'' (Inr True),
       Remove ''/var/run/veneur/ssf.sock'' None,
       ListenUnix ''unix'' ''/var/run/veneur/ssf.sock'' (Inr (RawListener 3)),
       Chmod ''/var/run/veneur/ssf.sock'' 438 None,
       Go (UnixDispatch (RawListener 3) ''/var/run/veneur/ssf.sock.lock'')],
      Returns ())"
  using unix_setup_ignores_remove_result [where env = setupWorks and l = "RawListener 3"
      and s = exampleServer and name = "''/var/run/veneur/ssf.sock''"]
    unix_setup_ignores_remove_result [where env = "setupWorks\<lparr>remove_res := None\<rparr>"
      and l = "RawListener 3" and s = exampleServer and name = "''/var/run/veneur/ssf.sock''"]
  by (simp add: setupWorks_def)

section \<open>Properties of the softnet parser\<close>

lemma digitVal_plain:
  "digitVal c = Some v \<Longrightarrow> c \<noteq> Quote \<and> c \<noteq> Comma \<and> c \<noteq> NL \<and> c \<noteq> CR"
  by (auto simp: digitVal_def)

lemma ParseUint_loop_plain:
  "ParseUint_loop base n s = Inr m \<Longrightarrow> plainField s"
proof (induction s arbitrary: n)
  case Nil
  then show ?case by (simp add: plainField_def)
next
  case (Cons d s)
  from Cons.prems obtain v where v: "digitVal d = Some v"
    by (cases "digitVal d") simp_all
  from Cons.prems v obtain n1 where "ParseUint_loop base n1 s = Inr m"
    by (auto simp: Let_def split: if_splits)
  from Cons.IH [OF this] digitVal_plain [OF v] show ?case
    by (auto simp: plainField_def)
qed

lemma ParseInt_plain:
  assumes "ParseInt f base = Inr n"
  shows "plainField f" and "f \<noteq> []"
proof -
  from assms show ne: "f \<noteq> []" by (auto simp: ParseInt_def)
  let ?s = "if hd f = CHR ''+'' \<or> hd f = CHR ''-'' then tl f else f"
  from assms ne obtain un where "ParseUint ?s base = Inr un"
    by (auto simp: ParseInt_def Let_def split: sum.splits num_err.splits)
  then have "ParseUint_loop base 0 ?s = Inr un"
    by (auto simp: ParseUint_def split: if_splits)
  then have p: "plainField ?s" by (rule ParseUint_loop_plain)
  show "plainField f"
  proof (cases "hd f = CHR ''+'' \<or> hd f = CHR ''-''")
    case True
    with ne obtain c cs where f: "f = c # cs" and c: "c = CHR ''+'' \<or> c = CHR ''-''"
      by (cases f) auto
    with p True have "plainField cs" by simp
    with f c show ?thesis by (auto simp: plainField_def)
  next
    case False
    with p show ?thesis by simp
  qed
qed

lemma parseSoftnetRecord_ok:
  assumes "\<forall>f \<in> set row. \<exists>n. ParseInt f 16 = Inr n"
  shows "parseSoftnetRecord row = Inr (map hexValue row)"
  using assms by (induction row) (auto simp: hexValue_def)

lemma parseSoftnetRecord_length:
  "parseSoftnetRecord row = Inr flds \<Longrightarrow> length flds = length row"
  by (induction row arbitrary: flds) (auto split: sum.splits)

lemma parseSoftnetRecord_all_decode:
  "parseSoftnetRecord row = Inr flds \<Longrightarrow> \<forall>f \<in> set row. \<exists>n. ParseInt f 16 = Inr n"
  by (induction row arbitrary: flds) (auto split: sum.splits)

lemma parseSoftnet_loop_ok:
  assumes "\<forall>row \<in> set rows. length row = 11 \<and> (\<forall>f \<in> set row. \<exists>n. ParseInt f 16 = Inr n)"
  shows "parseSoftnet_loop rows = Returns (Inr (map processorOf rows))"
  using assms
proof (induction rows)
  case Nil
  show ?case by simp
next
  case (Cons row rows)
  then have rec: "parseSoftnetRecord row = Inr (map hexValue row)" and len: "length row = 11"
    by (simp_all add: parseSoftnetRecord_ok)
  from Cons have "parseSoftnet_loop rows = Returns (Inr (map processorOf rows))" by simp
  with rec len show ?case by (simp add: processorOf_def)
qed

lemma parseSoftnet_loop_error:
  assumes "\<forall>row \<in> set rows. length row = 11"
    and "\<exists>row \<in> set rows. \<exists>f \<in> set row. \<exists>e. ParseInt f 16 = Inl e"
  shows "\<exists>e. parseSoftnet_loop rows = Returns (Inl e)"
  using assms
proof (induction rows)
  case Nil
  then show ?case by simp
next
  case (Cons row rows)
  show ?case
  proof (cases "parseSoftnetRecord row")
    case (Inl e)
    then show ?thesis by simp
  next
    case (Inr flds)
    from parseSoftnetRecord_all_decode [OF Inr] Cons.prems(2)
    have "\<exists>row \<in> set rows. \<exists>f \<in> set row. \<exists>e. ParseInt f 16 = Inl e" by fastforce
    with Cons have "\<exists>e. parseSoftnet_loop rows = Returns (Inl e)" by simp
    then obtain e where "parseSoftnet_loop rows = Returns (Inl e)" ..
    moreover from parseSoftnetRecord_length [OF Inr] Cons.prems(1) have "length flds = 11" by simp
    ultimately show ?thesis using Inr by simp
  qed
qed

lemma last_not_member: "c \<notin> set l \<Longrightarrow> l = [] \<or> last l \<noteq> c"
  by (metis last_in_set)

lemma lengthNL_plain: "NL \<notin> set f \<Longrightarrow> lengthNL f = 0"
  using last_not_member [of NL f] by (auto simp: lengthNL_def)

lemma lengthNL_snoc: "lengthNL (f @ [NL]) = 1"
  by (simp add: lengthNL_def)

lemma parseField_last:
  assumes "plainField f"
  shows "parseField f rest dst = (Inr (dst @ [f]), rest)"
    and "parseField (f @ [NL]) rest dst = (Inr (dst @ [f]), rest)"
proof -
  from assms have q: "Quote \<notin> set f" and c: "Comma \<notin> set f" and n: "NL \<notin> set f"
    by (simp_all add: plainField_def)
  from q have hd1: "f = [] \<or> hd f \<noteq> Quote" by (cases f) auto
  from q have hd2: "hd (f @ [NL]) \<noteq> Quote" by (cases f) auto
  from hd1 q c n show "parseField f rest dst = (Inr (dst @ [f]), rest)"
    by (subst parseField.simps) (simp add: lengthNL_plain)
  from hd2 q c n show "parseField (f @ [NL]) rest dst = (Inr (dst @ [f]), rest)"
    by (subst parseField.simps) (simp add: lengthNL_snoc)
qed

lemma parseField_comma:
  assumes "plainField f"
  shows "parseField (f @ Comma # line) rest dst = parseField line rest (dst @ [f])"
proof -
  from assms have q: "Quote \<notin> set f" and c: "Comma \<notin> set f"
    by (simp_all add: plainField_def)
  from q have hd: "hd (f @ Comma # line) \<noteq> Quote" by (cases f) auto
  from c have tw: "takeWhile (\<lambda>c. c \<noteq> Comma) (f @ Comma # line) = f"
    by (auto simp: takeWhile_tail)
  from c have dw: "dropWhile (\<lambda>c. c \<noteq> Comma) (f @ Comma # line) = Comma # line"
    by (auto simp: dropWhile_append3)
  from hd q tw dw show ?thesis
    by (subst parseField.simps) simp
qed

lemma parseField_joinFields:
  assumes "\<forall>f \<in> set (f0 # fs). plainField f"
  shows "parseField (joinFields (f0 # fs)) rest dst = (Inr (dst @ f0 # fs), rest)"
    and "parseField (joinFields (f0 # fs) @ [NL]) rest dst = (Inr (dst @ f0 # fs), rest)"
  using assms
proof (induction fs arbitrary: f0 dst)
  case Nil
  {
    case 1
    then show ?case by (simp add: parseField_last)
  next
    case 2
    then show ?case by (simp add: parseField_last)
  }
next
  case (Cons g gs)
  {
    case 1
    then show ?case using Cons.IH(1) [of g "dst @ [f0]"] by (simp add: parseField_comma)
  next
    case 2
    then show ?case using Cons.IH(2) [of g "dst @ [f0]"] by (simp add: parseField_comma)
  }
qed

lemma set_joinFields: "set (joinFields row) \<subseteq> (\<Union>f \<in> set row. set f) \<union> {Comma}"
  by (induction row rule: joinFields.induct) auto

lemma joinFields_plain:
  assumes "\<forall>f \<in> set row. plainField f"
  shows "Quote \<notin> set (joinFields row)" "NL \<notin> set (joinFields row)" "CR \<notin> set (joinFields row)"
  using assms set_joinFields [of row] by (auto simp: plainField_def)

lemma joinFields_nonempty: "2 \<le> length row \<Longrightarrow> joinFields row \<noteq> []"
  by (cases row rule: joinFields.cases) auto

lemma readLine_line:
  assumes "NL \<notin> set l" and "CR \<notin> set l"
  shows "readLine (l @ NL # tail) = Some (l @ [NL], tail)"
proof -
  from assms(1) have tw: "takeWhile (\<lambda>c. c \<noteq> NL) (l @ NL # tail) = l"
    by (auto simp: takeWhile_tail)
  from assms(1) have dw: "dropWhile (\<lambda>c. c \<noteq> NL) (l @ NL # tail) = NL # tail"
    by (auto simp: dropWhile_append3)
  from assms(2) have "l = [] \<or> last l \<noteq> CR" by (rule last_not_member)
  then show ?thesis unfolding readLine_def Let_def tw dw by auto
qed

lemma readLine_last:
  assumes "NL \<notin> set l" and "CR \<notin> set l" and "l \<noteq> []"
  shows "readLine l = Some (l, [])"
proof -
  from assms(1) have tw: "takeWhile (\<lambda>c. c \<noteq> NL) l = l" and dw: "dropWhile (\<lambda>c. c \<noteq> NL) l = []"
    by auto
  from last_not_member [OF assms(2)] assms(3) have "last l \<noteq> CR" by simp
  with assms(3) show ?thesis unfolding readLine_def Let_def tw dw by simp
qed

lemma readRecord_row:
  assumes "\<forall>f \<in> set row. plainField f" and "2 \<le> length row"
  shows "readRecord (joinFields row @ NL # tail) = Some (Inr row, tail)"
    and "readRecord (joinFields row) = Some (Inr row, [])"
proof -
  from assms(2) obtain f0 fs where row: "row = f0 # fs" by (cases row) auto
  note ne = joinFields_nonempty [OF assms(2)]
  note pl = joinFields_plain [OF assms(1)]
  from ne have not_empty: "length (joinFields row @ [NL]) \<noteq> lengthNL (joinFields row @ [NL])"
    by (simp add: lengthNL_snoc)
  from ne pl have not_empty': "length (joinFields row) \<noteq> lengthNL (joinFields row)"
    by (simp add: lengthNL_plain)
  have "nextLine (joinFields row @ NL # tail) = Some (joinFields row @ [NL], tail)"
    using readLine_line [OF pl(2,3)] not_empty by (subst nextLine.simps) simp
  then show "readRecord (joinFields row @ NL # tail) = Some (Inr row, tail)"
    using parseField_joinFields(2) [of f0 fs tail "[]"] assms(1) row
    by (simp add: readRecord_def)
  have "nextLine (joinFields row) = Some (joinFields row, [])"
    using readLine_last [OF pl(2,3) ne] not_empty' by (subst nextLine.simps) simp
  then show "readRecord (joinFields row) = Some (Inr row, [])"
    using parseField_joinFields(1) [of f0 fs "[]" "[]"] assms(1) row
    by (simp add: readRecord_def)
qed

lemma ReadAll_loop_empty: "ReadAll_loop fpr [] = Inr []"
  by (subst ReadAll_loop.simps) (simp add: readRecord_def nextLine.simps readLine_def)

lemma ReadAll_softnetText:
  assumes "\<forall>row \<in> set rows. length row = 11 \<and> (\<forall>f \<in> set row. plainField f)"
  shows "ReadAll_loop 11 (softnetText rows final) = Inr rows"
  using assms
proof (induction rows final rule: softnetText.induct)
  case (1 final)
  show ?case by (simp add: ReadAll_loop_empty)
next
  case (2 r final)
  then have pl: "\<forall>f \<in> set r. plainField f" and len: "length r = 11" by simp_all
  then have two: "2 \<le> length r" by simp
  show ?case
  proof (cases final)
    case True
    with readRecord_row(1) [OF pl two, of "[]"] len show ?thesis
      by (subst ReadAll_loop.simps) (simp add: ReadAll_loop_empty)
  next
    case False
    with readRecord_row(2) [OF pl two] len show ?thesis
      by (subst ReadAll_loop.simps) (simp add: ReadAll_loop_empty)
  qed
next
  case (3 r r' rs final)
  then have pl: "\<forall>f \<in> set r. plainField f" and len: "length r = 11" by simp_all
  then have two: "2 \<le> length r" by simp
  from 3 have "ReadAll_loop 11 (softnetText (r' # rs) final) = Inr (r' # rs)" by simp
  with readRecord_row(1) [OF pl two, of "softnetText (r' # rs) final"] len show ?case
    by (subst ReadAll_loop.simps) simp
qed

lemma ReadAll_loop_unchecked:
  assumes "fpr < 0" and "ReadAll_loop fpr inp = Inr rows"
  shows "ReadAll_loop 11 inp =
     (if \<forall>row \<in> set rows. length row = 11 then Inr rows else Inl ErrFieldCount)"
  using assms
proof (induction fpr inp arbitrary: rows rule: ReadAll_loop.induct)
  case (1 fpr inp)
  show ?case
  proof (cases "readRecord inp")
    case None
    with "1.prems" have "rows = []"
      by (subst (asm) ReadAll_loop.simps) simp
    with None show ?thesis
      by (subst ReadAll_loop.simps) simp
  next
    case (Some p)
    obtain res rest where p: "p = (res, rest)" by (cases p)
    show ?thesis
    proof (cases res)
      case (Inl e)
      with "1.prems" Some p show ?thesis
        by (subst (asm) ReadAll_loop.simps) simp
    next
      case (Inr rcd)
      from "1.prems" Some p Inr obtain rows' where
        rec: "ReadAll_loop fpr rest = Inr rows'" and rows: "rows = rcd # rows'"
        by (subst (asm) ReadAll_loop.simps) (auto split: sum.splits)
      from "1.prems"(1) have nocheck: "\<not> (0 < fpr \<and> int (length rcd) \<noteq> fpr)" by simp
      from "1.IH" [OF Some p [symmetric] Inr nocheck] "1.prems"(1) rec
      have ih: "ReadAll_loop 11 rest =
          (if \<forall>row \<in> set rows'. length row = 11 then Inr rows' else Inl ErrFieldCount)"
        by simp
      show ?thesis
      proof (cases "length rcd = 11")
        case True
        with Some p Inr ih rows show ?thesis
          by (subst ReadAll_loop.simps) simp
      next
        case False
        with Some p Inr rows show ?thesis
          by (subst ReadAll_loop.simps) simp
      qed
    qed
  qed
qed

lemma ReadAll_loop_unchecked_error:
  assumes "fpr < 0" and "ReadAll_loop fpr inp = Inl e"
  shows "\<exists>e'. ReadAll_loop 11 inp = Inl e'"
  using assms
proof (induction fpr inp rule: ReadAll_loop.induct)
  case (1 fpr inp)
  show ?case
  proof (cases "readRecord inp")
    case None
    with "1.prems" show ?thesis
      by (subst (asm) ReadAll_loop.simps) simp
  next
    case (Some p)
    obtain res rest where p: "p = (res, rest)" by (cases p)
    show ?thesis
    proof (cases res)
      case (Inl e1)
      with Some p show ?thesis
        by (subst ReadAll_loop.simps) simp
    next
      case (Inr rcd)
      from "1.prems" Some p Inr have rec: "ReadAll_loop fpr rest = Inl e"
        by (subst (asm) ReadAll_loop.simps) (auto split: sum.splits)
      from "1.prems"(1) have nocheck: "\<not> (0 < fpr \<and> int (length rcd) \<noteq> fpr)" by simp
      from "1.IH" [OF Some p [symmetric] Inr nocheck] "1.prems"(1) rec
      obtain e' where "ReadAll_loop 11 rest = Inl e'" by auto
      with Some p Inr show ?thesis
        by (subst ReadAll_loop.simps) simp
    qed
  qed
qed

lemma ReadAll_loop_checked:
  assumes "0 < fpr" and "ReadAll_loop fpr inp = Inr rows"
  shows "\<forall>row \<in> set rows. int (length row) = fpr"
  using assms
proof (induction fpr inp arbitrary: rows rule: ReadAll_loop.induct)
  case (1 fpr inp)
  show ?case
  proof (cases "readRecord inp")
    case None
    with "1.prems" have "rows = []"
      by (subst (asm) ReadAll_loop.simps) simp
    then show ?thesis by simp
  next
    case (Some p)
    obtain res rest where p: "p = (res, rest)" by (cases p)
    show ?thesis
    proof (cases res)
      case (Inl e)
      with "1.prems" Some p show ?thesis
        by (subst (asm) ReadAll_loop.simps) simp
    next
      case (Inr rcd)
      from "1.prems" Some p Inr obtain rows' where
        len: "int (length rcd) = fpr" and
        rec: "ReadAll_loop fpr rest = Inr rows'" and rows: "rows = rcd # rows'"
        by (subst (asm) ReadAll_loop.simps) (auto split: sum.splits if_splits)
      from len "1.prems"(1) have nocheck: "\<not> (0 < fpr \<and> int (length rcd) \<noteq> fpr)" by simp
      from "1.IH" [OF Some p [symmetric] Inr nocheck] "1.prems"(1) rec
      have "\<forall>row \<in> set rows'. int (length row) = fpr" by simp
      with len rows show ?thesis by simp
    qed
  qed
qed

text \<open>The fields of the examples and what \<^verbatim>\<open>ParseInt\<close> makes of them.\<close>

lemma ParseInt_examples:
  "ParseInt ''0'' 16 = Inr 0" "ParseInt ''1'' 16 = Inr 1" "ParseInt ''2'' 16 = Inr 2"
  "ParseInt ''3'' 16 = Inr 3" "ParseInt ''4'' 16 = Inr 4" "ParseInt ''5'' 16 = Inr 5"
  "ParseInt ''6'' 16 = Inr 6"
  "ParseInt ''00000000'' 16 = Inr 0" "ParseInt ''0000a3f1'' 16 = Inr 41969"
  "ParseInt ''0000001c'' 16 = Inr 28" "ParseInt ''7fffffff'' 16 = Inr 2147483647"
  "ParseInt ''zz'' 16 = Inl ErrSyntax"
  by (simp_all add: ParseInt_def ParseUint_def digitVal_def)

lemma parseSoftnet_softnetText:
  assumes "\<forall>row \<in> set rows. length row = 11 \<and> (\<forall>f \<in> set row. \<exists>n. ParseInt f 16 = Inr n)"
  shows "parseSoftnet (softnetText rows final) =
      Returns (\<lparr>Processors = map processorOf rows\<rparr>, None)"
proof -
  from assms have "\<forall>row \<in> set rows. length row = 11 \<and> (\<forall>f \<in> set row. plainField f)"
    by (meson ParseInt_plain(1))
  then have "ReadAll 11 (softnetText rows final) = Inr rows"
    by (simp add: ReadAll_def ReadAll_softnetText)
  with parseSoftnet_loop_ok [OF assms] show ?thesis
    by (simp add: parseSoftnet_def)
qed

text \<open>
  C8. A report whose rows each have eleven fields, every field a base-16 integer that
  \<^verbatim>\<open>ParseInt\<close> decodes into 64 bits, written with one space between the fields and one
  row per line, parses without error into one record per row, in the order of the rows:
  the fields 0, 1, 2, 8, 9 and 10 of a row are the counters of its record and the five
  fields between are dropped. The row \<^verbatim>\<open>1 2 3 0 0 0 0 0 4 5 6\<close> gives the counters 1, 2,
  3, 4, 5 and 6.
\<close>

theorem parseSoftnet_wellformed:
  assumes "\<forall>row \<in> set rows. length row = 11 \<and> (\<forall>f \<in> set row. \<exists>n. ParseInt f 16 = Inr n)"
  shows "parseSoftnet (softnetText rows final) =
       Returns (\<lparr>Processors = map processorOf rows\<rparr>, None)
     \<and> parseSoftnet ''1 2 3 0 0 0 0 0 4 5 6'' =
       Returns (\<lparr>Processors = [\<lparr>Processed = 1, Dropped = 2, TimeSqueeze = 3,
                  CPUCollision = 4, ReceivedRPS = 5, FlowLimitCount = 6\<rparr>]\<rparr>, None)"
proof
  from assms show "parseSoftnet (softnetText rows final) =
      Returns (\<lparr>Processors = map processorOf rows\<rparr>, None)"
    by (rule parseSoftnet_softnetText)
next
  have "readRecord ''1 2 3 0 0 0 0 0 4 5 6'' =
      Some (Inr [''1'', ''2'', ''3'', ''0'', ''0'', ''0'', ''0'', ''0'', ''4'', ''5'', ''6''], [])"
    by (simp add: readRecord_def nextLine.simps readLine_def lengthNL_def parseField.simps Let_def)
  then have "ReadAll 11 ''1 2 3 0 0 0 0 0 4 5 6'' =
      Inr [[''1'', ''2'', ''3'', ''0'', ''0'', ''0'', ''0'', ''0'', ''4'', ''5'', ''6'']]"
    by (simp add: ReadAll_def ReadAll_loop.simps [of 11 "''1 2 3 0 0 0 0 0 4 5 6''"]
        ReadAll_loop_empty)
  then show "parseSoftnet ''1 2 3 0 0 0 0 0 4 5 6'' =
      Returns (\<lparr>Processors = [\<lparr>Processed = 1, Dropped = 2, TimeSqueeze = 3,
                 CPUCollision = 4, ReceivedRPS = 5, FlowLimitCount = 6\<rparr>]\<rparr>, None)"
    by (simp add: parseSoftnet_def ParseInt_examples)
qed

theorem parseSoftnet_wellformed_witness:
  "parseSoftnet (softnetText
      [[''0000a3f1'', ''00000000'', ''0000001c'', ''00000000'', ''00000000'', ''00000000'',
        ''00000000'', ''00000000'', ''00000000'', ''00000000'', ''00000000''],
       [''7fffffff'', ''0000001c'', ''00000000'', ''00000000'', ''00000000'', ''00000000'',
        ''00000000'', ''00000000'', ''0000001c'', ''0000a3f1'', ''00000000'']] True) =
   Returns (\<lparr>Processors =
     [\<lparr>Processed = 41969, Dropped = 0, TimeSqueeze = 28,
       CPUCollision = 0, ReceivedRPS = 0, FlowLimitCount = 0\<rparr>,
      \<lparr>Processed = 2147483647, Dropped = 28, TimeSqueeze = 0,
       CPUCollision = 28, ReceivedRPS = 41969, FlowLimitCount = 0\<rparr>]\<rparr>, None)"
  using parseSoftnet_wellformed [where final = True and rows =
      "[[''0000a3f1'', ''00000000'', ''0000001c'', ''00000000'', ''00000000'', ''00000000'',
         ''00000000'', ''00000000'', ''00000000'', ''00000000'', ''00000000''],
        [''7fffffff'', ''0000001c'', ''00000000'', ''00000000'', ''00000000'', ''00000000'',
         ''00000000'', ''00000000'', ''0000001c'', ''0000a3f1'', ''00000000'']]"]
  by (simp add: ParseInt_examples processorOf_def hexValue_def)

lemma ParseUint_loop_hex:
  assumes "\<forall>c \<in> set s. isHexDigit c" and "n < 16 ^ k" and "k + length s \<le> 16"
  shows "ParseUint_loop 16 n s = Inr (hexNat n s) \<and> hexNat n s < 16 ^ (k + length s)"
  using assms
proof (induction s arbitrary: n k)
  case Nil
  then show ?case by simp
next
  case (Cons c s)
  from Cons.prems(1) obtain v where v: "digitVal c = Some v" and v16: "v < 16"
    by (auto simp: isHexDigit_def split: option.splits)
  from Cons.prems(3) have k15: "k \<le> 15" by simp
  have "(16::nat) ^ k \<le> 16 ^ 15" using k15 by (intro power_increasing) simp_all
  with Cons.prems(2) have n60: "n < 1152921504606846976" by simp
  from Cons.prems(2) have "n + 1 \<le> 16 ^ k" by simp
  then have "16 * (n + 1) \<le> 16 * 16 ^ k" by simp
  with v16 have step: "16 * n + v < 16 ^ Suc k" by simp
  from n60 v16 have small: "n * 16 + v < 18446744073709551616" by simp
  from Cons.prems have rest: "\<forall>c \<in> set s. isHexDigit c" and len: "Suc k + length s \<le> 16"
    by simp_all
  from Cons.IH [OF rest step len]
  have ih: "ParseUint_loop 16 (16 * n + v) s = Inr (hexNat (16 * n + v) s)"
    and bound: "hexNat (16 * n + v) s < 16 ^ (Suc k + length s)" by simp_all
  from n60 small have "ParseUint_loop 16 n (c # s) = ParseUint_loop 16 (16 * n + v) s"
    using v v16 by (simp add: Let_def mult.commute)
  with ih bound v show ?case by simp
qed

text \<open>
  A field of one to fifteen hexadecimal digits, in either case, decodes to the number it
  denotes; the kernel prints eight.
\<close>

theorem ParseInt_hex:
  assumes "f \<noteq> []" and "\<forall>c \<in> set f. isHexDigit c" and "length f \<le> 15"
  shows "ParseInt f 16 = Inr (int (hexNat 0 f))"
proof -
  from assms(1) obtain c cs where f: "f = c # cs" by (cases f) auto
  with assms(2) have "isHexDigit c" by simp
  then have nosign: "c \<noteq> CHR ''+''" "c \<noteq> CHR ''-''"
    by (auto simp: isHexDigit_def digitVal_def)
  from ParseUint_loop_hex [OF assms(2), of 0 0] assms(3)
  have pu: "ParseUint_loop 16 0 f = Inr (hexNat 0 f)" and b: "hexNat 0 f < 16 ^ length f" by simp_all
  have "(16::nat) ^ length f \<le> 16 ^ 15" using assms(3) by (intro power_increasing) simp_all
  with b have "hexNat 0 f < 9223372036854775808" by simp
  with pu f nosign assms(1) show ?thesis
    by (simp add: ParseInt_def ParseUint_def)
qed

theorem ParseInt_hex_witness:
  "ParseInt ''0000a3f1'' 16 = Inr 41969 \<and> ParseInt ''00FFffFF'' 16 = Inr 16777215"
  using ParseInt_hex [of "''0000a3f1''"] ParseInt_hex [of "''00FFffFF''"]
  by (simp add: isHexDigit_def digitVal_def)

text \<open>
  So a report of rows of eleven such fields parses into the records of their numbers.
\<close>

theorem parseSoftnet_hex_rows:
  assumes "\<forall>row \<in> set rows. length row = 11
      \<and> (\<forall>f \<in> set row. f \<noteq> [] \<and> length f \<le> 15 \<and> (\<forall>c \<in> set f. isHexDigit c))"
  shows "parseSoftnet (softnetText rows final) =
      Returns (\<lparr>Processors = map hexProcessorOf rows\<rparr>, None)"
proof -
  have dec: "ParseInt f 16 = Inr (int (hexNat 0 f))" if "row \<in> set rows" and "f \<in> set row" for row f
    using assms that by (intro ParseInt_hex) auto
  then have ok: "\<forall>row \<in> set rows. length row = 11 \<and> (\<forall>f \<in> set row. \<exists>n. ParseInt f 16 = Inr n)"
    using assms by blast
  have "processorOf row = hexProcessorOf row" if row: "row \<in> set rows" for row
  proof -
    from assms row have len: "length row = 11" by simp
    have "hexValue (row ! i) = int (hexNat 0 (row ! i))" if "i < 11" for i
      using dec [OF row, of "row ! i"] len that by (simp add: hexValue_def)
    then show ?thesis by (simp add: processorOf_def hexProcessorOf_def)
  qed
  then have "map processorOf rows = map hexProcessorOf rows" by simp
  with parseSoftnet_softnetText [OF ok, of final] show ?thesis by simp
qed

theorem parseSoftnet_hex_rows_witness:
  "parseSoftnet (softnetText
      [[''0000a3f1'', ''00000000'', ''0000001c'', ''00000000'', ''00000000'', ''00000000'',
        ''00000000'', ''00000000'', ''00000000'', ''00000000'', ''00000000'']] False) =
   Returns (\<lparr>Processors =
     [\<lparr>Processed = 41969, Dropped = 0, TimeSqueeze = 28,
       CPUCollision = 0, ReceivedRPS = 0, FlowLimitCount = 0\<rparr>]\<rparr>, None)"
  using parseSoftnet_hex_rows [where final = False and rows =
      "[[''0000a3f1'', ''00000000'', ''0000001c'', ''00000000'', ''00000000'', ''00000000'',
         ''00000000'', ''00000000'', ''00000000'', ''00000000'', ''00000000'']]"]
  by (simp add: isHexDigit_def digitVal_def hexProcessorOf_def)

text \<open>
  C9. Take the rows of an input as the csv reader splits it when it does not check the
  number of fields. If one of them does not have exactly eleven fields, or holds a field
  that \<^verbatim>\<open>ParseInt\<close> does not decode, \<^verbatim>\<open>parseSoftnet\<close> returns an error and an empty
  report. Whenever it returns an error the report is empty: the records of the rows
  before the failing one are not returned.
\<close>

theorem parseSoftnet_bad_row_error:
  "(ReadAll (-1) r = Inr rows
      \<and> (\<exists>row \<in> set rows. length row \<noteq> 11 \<or> (\<exists>f \<in> set row. \<exists>e. ParseInt f 16 = Inl e))
     \<longrightarrow> (\<exists>e. parseSoftnet r = Returns (\<lparr>Processors = []\<rparr>, Some e)))
   \<and> (parseSoftnet r = Returns (sd, Some e) \<longrightarrow> Processors sd = [])"
proof (intro conjI impI)
  assume a: "ReadAll (-1) r = Inr rows
      \<and> (\<exists>row \<in> set rows. length row \<noteq> 11 \<or> (\<exists>f \<in> set row. \<exists>e. ParseInt f 16 = Inl e))"
  then have ra: "ReadAll_loop (-1) r = Inr rows" by (simp add: ReadAll_def)
  note rel = ReadAll_loop_unchecked [OF _ ra, simplified]
  show "\<exists>e. parseSoftnet r = Returns (\<lparr>Processors = []\<rparr>, Some e)"
  proof (cases "\<forall>row \<in> set rows. length row = 11")
    case True
    with rel have r11: "ReadAll 11 r = Inr rows" by (simp add: ReadAll_def)
    from a True have "\<exists>row \<in> set rows. \<exists>f \<in> set row. \<exists>e. ParseInt f 16 = Inl e" by blast
    from parseSoftnet_loop_error [OF True this] obtain e where
      "parseSoftnet_loop rows = Returns (Inl e)" ..
    with r11 show ?thesis by (simp add: parseSoftnet_def)
  next
    case False
    with rel have "ReadAll 11 r = Inl ErrFieldCount" by (simp add: ReadAll_def)
    then show ?thesis by (simp add: parseSoftnet_def)
  qed
next
  assume "parseSoftnet r = Returns (sd, Some e)"
  then show "Processors sd = []"
    by (auto simp: parseSoftnet_def split: sum.splits outcome.splits)
qed

theorem parseSoftnet_bad_row_error_witness:
  "ReadAll (-1) (''1 2 3 0 0 0 0 0 4 5 6'' @ [NL] @ ''1 2 3'') =
     Inr [[''1'', ''2'', ''3'', ''0'', ''0'', ''0'', ''0'', ''0'', ''4'', ''5'', ''6''],
          [''1'', ''2'', ''3'']]
   \<and> (\<exists>e. parseSoftnet (''1 2 3 0 0 0 0 0 4 5 6'' @ [NL] @ ''1 2 3'') =
        Returns (\<lparr>Processors = []\<rparr>, Some e))
   \<and> ReadAll (-1) (''1 2 3 0 0 0 0 0 4 5 6'' @ [NL] @ ''zz 2 3 0 0 0 0 0 4 5 6'') =
     Inr [[''1'', ''2'', ''3'', ''0'', ''0'', ''0'', ''0'', ''0'', ''4'', ''5'', ''6''],
          [''zz'', ''2'', ''3'', ''0'', ''0'', ''0'', ''0'', ''0'', ''4'', ''5'', ''6'']]
   \<and> (\<exists>e. parseSoftnet (''1 2 3 0 0 0 0 0 4 5 6'' @ [NL] @ ''zz 2 3 0 0 0 0 0 4 5 6'') =
        Returns (\<lparr>Processors = []\<rparr>, Some e))"
proof -
  have rows1: "ReadAll (-1) (''1 2 3 0 0 0 0 0 4 5 6'' @ [NL] @ ''1 2 3'') =
     Inr [[''1'', ''2'', ''3'', ''0'', ''0'', ''0'', ''0'', ''0'', ''4'', ''5'', ''6''],
          [''1'', ''2'', ''3'']]"
    by (simp add: ReadAll_def ReadAll_loop.simps readRecord_def nextLine.simps readLine_def
        lengthNL_def parseField.simps Let_def)
  have rows2: "ReadAll (-1) (''1 2 3 0 0 0 0 0 4 5 6'' @ [NL] @ ''zz 2 3 0 0 0 0 0 4 5 6'') =
     Inr [[''1'', ''2'', ''3'', ''0'', ''0'', ''0'', ''0'', ''0'', ''4'', ''5'', ''6''],
          [''zz'', ''2'', ''3'', ''0'', ''0'', ''0'', ''0'', ''0'', ''4'', ''5'', ''6'']]"
    by (simp add: ReadAll_def ReadAll_loop.simps readRecord_def nextLine.simps readLine_def
        lengthNL_def parseField.simps Let_def)
  from parseSoftnet_bad_row_error [where r = "''1 2 3 0 0 0 0 0 4 5 6'' @ [NL] @ ''1 2 3''"
      and rows = "[[''1'', ''2'', ''3'', ''0'', ''0'', ''0'', ''0'', ''0'', ''4'', ''5'', ''6''],
        [''1'', ''2'', ''3'']]"] rows1
  have e1: "\<exists>e. parseSoftnet (''1 2 3 0 0 0 0 0 4 5 6'' @ [NL] @ ''1 2 3'') =
        Returns (\<lparr>Processors = []\<rparr>, Some e)"
    by simp
  from parseSoftnet_bad_row_error [where r = "''1 2 3 0 0 0 0 0 4 5 6'' @ [NL] @ ''zz 2 3 0 0 0 0 0 4 5 6''"
      and rows = "[[''1'', ''2'', ''3'', ''0'', ''0'', ''0'', ''0'', ''0'', ''4'', ''5'', ''6''],
        [''zz'', ''2'', ''3'', ''0'', ''0'', ''0'', ''0'', ''0'', ''4'', ''5'', ''6'']]"] rows2
  have e2: "\<exists>e. parseSoftnet (''1 2 3 0 0 0 0 0 4 5 6'' @ [NL] @ ''zz 2 3 0 0 0 0 0 4 5 6'') =
        Returns (\<lparr>Processors = []\<rparr>, Some e)"
    by (simp add: ParseInt_examples)
  from rows1 e1 rows2 e2 show ?thesis by blast
qed

lemma nextLine_blank: "nextLine (replicate n NL) = None"
proof (induction n)
  case 0
  show ?case by (simp add: nextLine.simps readLine_def)
next
  case (Suc n)
  have "readLine (NL # replicate n NL) = Some ([NL], replicate n NL)"
    by (simp add: readLine_def)
  with Suc show ?case
    by (simp add: nextLine.simps [of "NL # replicate n NL"] lengthNL_def)
qed

text \<open>
  C10. On the empty input \<^verbatim>\<open>parseSoftnet\<close> returns no error and a report without
  records; so it does on an input of empty lines only.
\<close>

theorem parseSoftnet_empty_input:
  "parseSoftnet [] = Returns (\<lparr>Processors = []\<rparr>, None)
   \<and> parseSoftnet (replicate n NL) = Returns (\<lparr>Processors = []\<rparr>, None)"
proof -
  have "ReadAll 11 (replicate n NL) = Inr []" for n
    by (simp add: ReadAll_def ReadAll_loop.simps [of 11 "replicate n NL"] readRecord_def
        nextLine_blank)
  from this [of 0] this [of n] show ?thesis
    by (simp add: parseSoftnet_def)
qed

lemma ReadAll_loop_checked_unchecked:
  assumes "ReadAll_loop fpr inp = Inr rows" and "0 < fpr"
  shows "ReadAll_loop (-1) inp = Inr rows"
  using assms
proof (induction fpr inp arbitrary: rows rule: ReadAll_loop.induct)
  case (1 fpr inp)
  show ?case
  proof (cases "readRecord inp")
    case None
    with "1.prems" have "rows = []"
      by (subst (asm) ReadAll_loop.simps) simp
    with None show ?thesis
      by (subst ReadAll_loop.simps) simp
  next
    case (Some p)
    obtain res rest where p: "p = (res, rest)" by (cases p)
    show ?thesis
    proof (cases res)
      case (Inl e)
      with "1.prems" Some p show ?thesis
        by (subst (asm) ReadAll_loop.simps) simp
    next
      case (Inr rcd)
      from "1.prems" Some p Inr obtain rows' where
        len: "int (length rcd) = fpr" and
        rec: "ReadAll_loop fpr rest = Inr rows'" and rows: "rows = rcd # rows'"
        by (subst (asm) ReadAll_loop.simps) (auto split: sum.splits if_splits)
      from len have nocheck: "\<not> (0 < fpr \<and> int (length rcd) \<noteq> fpr)" by simp
      from "1.IH" [OF Some p [symmetric] Inr nocheck] "1.prems"(2) rec
      have "ReadAll_loop (-1) rest = Inr rows'" by simp
      with Some p Inr rows show ?thesis
        by (subst ReadAll_loop.simps) simp
    qed
  qed
qed

lemma parseSoftnetRecord_values:
  "parseSoftnetRecord row = Inr flds \<Longrightarrow> flds = map hexValue row"
  by (induction row arbitrary: flds) (auto simp: hexValue_def split: sum.splits)

lemma parseSoftnet_loop_records:
  assumes "parseSoftnet_loop rows = Returns (Inr sdps)"
  shows "sdps = map processorOf rows
     \<and> (\<forall>row \<in> set rows. \<forall>f \<in> set row. \<exists>n. ParseInt f 16 = Inr n)"
  using assms
proof (induction rows arbitrary: sdps)
  case Nil
  then show ?case by simp
next
  case (Cons row rows)
  from Cons.prems obtain flds where flds: "parseSoftnetRecord row = Inr flds"
    by (cases "parseSoftnetRecord row") simp_all
  from Cons.prems flds have long: "10 < length flds"
    by (cases "length flds \<le> 10") simp_all
  from Cons.prems flds long obtain sdps' where
    rec: "parseSoftnet_loop rows = Returns (Inr sdps')" and
    sdps: "sdps = \<lparr>Processed = flds ! 0, Dropped = flds ! 1, TimeSqueeze = flds ! 2,
        CPUCollision = flds ! 8, ReceivedRPS = flds ! 9, FlowLimitCount = flds ! 10\<rparr> # sdps'"
    by (auto simp: Let_def split: outcome.splits sum.splits)
  from parseSoftnetRecord_values [OF flds] have
    vals: "flds ! i = hexValue (row ! i)" if "i < length flds" for i
    using that by simp
  from long have "0 < length flds" "1 < length flds" "2 < length flds" "8 < length flds"
    "9 < length flds" "10 < length flds" by linarith+
  then have "\<lparr>Processed = flds ! 0, Dropped = flds ! 1, TimeSqueeze = flds ! 2,
        CPUCollision = flds ! 8, ReceivedRPS = flds ! 9, FlowLimitCount = flds ! 10\<rparr> = processorOf row"
    by (simp add: processorOf_def vals)
  with Cons.IH [OF rec] sdps parseSoftnetRecord_all_decode [OF flds] show ?case by simp
qed

text \<open>
  When \<^verbatim>\<open>parseSoftnet\<close> returns without an error: exactly when the input splits into
  rows of eleven fields that all decode, and then the report holds the records of these
  rows, in their order.
\<close>

theorem parseSoftnet_succeeds_iff:
  "parseSoftnet r = Returns (sd, None) \<longleftrightarrow>
     (\<exists>rows. ReadAll (-1) r = Inr rows
        \<and> (\<forall>row \<in> set rows. length row = 11 \<and> (\<forall>f \<in> set row. \<exists>n. ParseInt f 16 = Inr n))
        \<and> sd = \<lparr>Processors = map processorOf rows\<rparr>)"
proof
  assume ok: "parseSoftnet r = Returns (sd, None)"
  then obtain rows where r11: "ReadAll 11 r = Inr rows"
    by (cases "ReadAll 11 r") (simp_all add: parseSoftnet_def)
  with ok obtain sdps where loop: "parseSoftnet_loop rows = Returns (Inr sdps)"
    and sd: "sd = \<lparr>Processors = sdps\<rparr>"
    by (auto simp: parseSoftnet_def split: outcome.splits sum.splits)
  from r11 have "ReadAll (-1) r = Inr rows"
    using ReadAll_loop_checked_unchecked [of 11 r rows] by (simp add: ReadAll_def)
  moreover from r11 have "\<forall>row \<in> set rows. length row = 11"
    using ReadAll_loop_checked [of 11 r rows] by (simp add: ReadAll_def)
  ultimately show "\<exists>rows. ReadAll (-1) r = Inr rows
        \<and> (\<forall>row \<in> set rows. length row = 11 \<and> (\<forall>f \<in> set row. \<exists>n. ParseInt f 16 = Inr n))
        \<and> sd = \<lparr>Processors = map processorOf rows\<rparr>"
    using parseSoftnet_loop_records [OF loop] sd by blast
next
  assume "\<exists>rows. ReadAll (-1) r = Inr rows
        \<and> (\<forall>row \<in> set rows. length row = 11 \<and> (\<forall>f \<in> set row. \<exists>n. ParseInt f 16 = Inr n))
        \<and> sd = \<lparr>Processors = map processorOf rows\<rparr>"
  then obtain rows where ra: "ReadAll_loop (-1) r = Inr rows"
    and good: "\<forall>row \<in> set rows. length row = 11 \<and> (\<forall>f \<in> set row. \<exists>n. ParseInt f 16 = Inr n)"
    and sd: "sd = \<lparr>Processors = map processorOf rows\<rparr>"
    by (auto simp: ReadAll_def)
  from ReadAll_loop_unchecked [OF _ ra] good have "ReadAll 11 r = Inr rows"
    by (simp add: ReadAll_def)
  with parseSoftnet_loop_ok [OF good] sd show "parseSoftnet r = Returns (sd, None)"
    by (simp add: parseSoftnet_def)
qed

theorem parseSoftnet_succeeds_iff_witness:
  "\<exists>rows. ReadAll (-1) ''1 2 3 0 0 0 0 0 4 5 6'' = Inr rows
     \<and> \<lparr>Processors = [\<lparr>Processed = 1, Dropped = 2, TimeSqueeze = 3,
          CPUCollision = 4, ReceivedRPS = 5, FlowLimitCount = 6\<rparr>]\<rparr> =
        \<lparr>Processors = map processorOf rows\<rparr>"
proof -
  have "readRecord ''1 2 3 0 0 0 0 0 4 5 6'' =
      Some (Inr [''1'', ''2'', ''3'', ''0'', ''0'', ''0'', ''0'', ''0'', ''4'', ''5'', ''6''], [])"
    by (simp add: readRecord_def nextLine.simps readLine_def lengthNL_def parseField.simps Let_def)
  then have "ReadAll 11 ''1 2 3 0 0 0 0 0 4 5 6'' =
      Inr [[''1'', ''2'', ''3'', ''0'', ''0'', ''0'', ''0'', ''0'', ''4'', ''5'', ''6'']]"
    by (simp add: ReadAll_def ReadAll_loop.simps [of 11 "''1 2 3 0 0 0 0 0 4 5 6''"]
        ReadAll_loop_empty)
  then have "parseSoftnet ''1 2 3 0 0 0 0 0 4 5 6'' =
      Returns (\<lparr>Processors = [\<lparr>Processed = 1, Dropped = 2, TimeSqueeze = 3,
                 CPUCollision = 4, ReceivedRPS = 5, FlowLimitCount = 6\<rparr>]\<rparr>, None)"
    by (simp add: parseSoftnet_def ParseInt_examples)
  with parseSoftnet_succeeds_iff [where r = "''1 2 3 0 0 0 0 0 4 5 6''"
      and sd = "\<lparr>Processors = [\<lparr>Processed = 1, Dropped = 2, TimeSqueeze = 3,
          CPUCollision = 4, ReceivedRPS = 5, FlowLimitCount = 6\<rparr>]\<rparr>"]
  obtain rows where "ReadAll (-1) ''1 2 3 0 0 0 0 0 4 5 6'' = Inr rows"
    and "\<lparr>Processors = [\<lparr>Processed = 1, Dropped = 2, TimeSqueeze = 3,
          CPUCollision = 4, ReceivedRPS = 5, FlowLimitCount = 6\<rparr>]\<rparr> =
        \<lparr>Processors = map processorOf rows\<rparr>"
    by (elim iffE) (erule impE, assumption, elim exE conjE, assumption)
  then show ?thesis by (intro exI conjI)
qed

text \<open>
  \<^verbatim>\<open>parseSoftnet\<close> never panics: the reader hands on records of eleven fields only, so
  every index is in range. It returns a report and possibly an error.
\<close>

theorem parseSoftnet_returns: "\<exists>sd e. parseSoftnet r = Returns (sd, e)"
proof (cases "ReadAll 11 r")
  case (Inl e)
  then show ?thesis by (simp add: parseSoftnet_def)
next
  case (Inr rows)
  then have "\<forall>row \<in> set rows. int (length row) = 11"
    using ReadAll_loop_checked [of 11 r rows] by (simp add: ReadAll_def)
  then have len: "\<forall>row \<in> set rows. length row = 11" by simp
  have "\<exists>x. parseSoftnet_loop rows = Returns x" using len
  proof (induction rows)
    case Nil
    show ?case by simp
  next
    case (Cons row rows)
    then obtain x where x: "parseSoftnet_loop rows = Returns x" by auto
    show ?case
    proof (cases "parseSoftnetRecord row")
      case (Inl e)
      then show ?thesis by simp
    next
      case (Inr flds)
      from parseSoftnetRecord_length [OF Inr] Cons.prems have "length flds = 11" by simp
      with Inr x show ?thesis by (cases x) simp_all
    qed
  qed
  then obtain x where "parseSoftnet_loop rows = Returns x" ..
  with Inr show ?thesis
    by (cases x) (simp_all add: parseSoftnet_def)
qed

end
